theory Spec2Isabelle
  imports Complex_Main
begin

section \<open>Errors\<close>

text \<open>
  Every exception that the program can raise is a value of \<open>error\<close>; a computation that
  may raise has the result type \<open>error + 'a\<close>, with \<open>Inl\<close> for the exception.
  \<^item> \<open>KeyError\<close>: a dictionary lookup with an unknown frequency or convention code;
  \<^item> \<open>DivisionByZero\<close>, \<open>InvalidOperation\<close>: the signals of the decimal library that the
    default context traps (a nonzero value divided by zero; zero divided by zero, or a
    \<open>quantize\<close> whose result needs more digits than the precision);
  \<^item> \<open>ValueError\<close>: a date whose year is outside 1..9999;
  \<^item> \<open>OverflowError\<close>: a date plus a number of days that leaves the range of dates.
\<close>

datatype error = KeyError | DivisionByZero | InvalidOperation | ValueError | OverflowError

definition bindE :: "error + 'a \<Rightarrow> ('a \<Rightarrow> error + 'b) \<Rightarrow> error + 'b" where
  "bindE m f = (case m of Inl e \<Rightarrow> Inl e | Inr x \<Rightarrow> f x)"

section \<open>Decimal arithmetic of the library, at the precision the program sets\<close>

text \<open>
  A finite \<open>Decimal\<close> is a coefficient and an exponent: \<open>Dec c e\<close> stands for \<open>c * 10^e\<close>.
  Two decimals with the same value and different exponents (\<open>1.0\<close> and \<open>1.00\<close>) are
  different values of this type, as they are different objects in Python. The program sets
  \<open>getcontext().prec = 28\<close> and leaves the context's rounding at round-half-even, so every
  arithmetic result is rounded to 28 significant digits (\<open>context_fix\<close>).

  Not modelled: the sign of a zero (\<open>-0.00\<close> and \<open>0.00\<close> compare equal in Python and no
  operation used here tells them apart), NaN and the infinities (no operation used here
  produces them while the traps are on), and the exponent limits of the context
  (\<open>Emax = 999999\<close>, \<open>Emin = -999999\<close>).
\<close>

datatype decimal = Dec (coef: int) (expo: int)

definition prec :: nat where
  "prec = 28"

text \<open>
  The number of decimal digits of the magnitude of a coefficient: \<open>len(self._int)\<close>; zero
  has one digit. Magnitudes are non-negative integers.
\<close>

function ndigits :: "int \<Rightarrow> nat" where
  "ndigits n = (if n < 10 then 1 else Suc (ndigits (n div 10)))"
  by pat_completeness auto
termination
  by (relation "measure nat") auto

declare ndigits.simps [simp del]

text \<open>
  \<open>round_half_even m k\<close> drops the last \<open>k\<close> digits of the magnitude \<open>m\<close>: the result goes
  up when the dropped part is more than half a unit of the kept part, or exactly half and
  the kept part is odd (\<open>_round_half_even\<close>).
\<close>

definition round_half_even :: "int \<Rightarrow> nat \<Rightarrow> int" where
  "round_half_even m k =
     (let q = m div 10 ^ k; r = m mod 10 ^ k
      in if 10 ^ k < 2 * r \<or> (2 * r = 10 ^ k \<and> odd q) then q + 1 else q)"

text \<open>
  \<open>Decimal._fix\<close>: a coefficient of more than \<open>prec\<close> digits is rounded to \<open>prec\<close> digits;
  when rounding up carries into one more digit, the last digit (a zero) is dropped and the
  exponent goes up by one.
\<close>

definition context_fix :: "decimal \<Rightarrow> decimal" where
  "context_fix d =
     (let m = \<bar>coef d\<bar>; n = ndigits m
      in if coef d = 0 \<or> n \<le> prec then d
         else let k = n - prec; c = round_half_even m k
              in if prec < ndigits c
                 then Dec (sgn (coef d) * (c div 10)) (expo d + int k + 1)
                 else Dec (sgn (coef d) * c) (expo d + int k))"

text \<open>\<open>Decimal.__add__\<close>: the exact sum at the smaller exponent, then rounded.\<close>

definition dec_add :: "decimal \<Rightarrow> decimal \<Rightarrow> decimal" where
  "dec_add a b =
     (let e = min (expo a) (expo b)
      in context_fix (Dec (coef a * 10 ^ nat (expo a - e) + coef b * 10 ^ nat (expo b - e)) e))"

definition dec_neg :: "decimal \<Rightarrow> decimal" where
  "dec_neg a = Dec (- coef a) (expo a)"

text \<open>\<open>Decimal.__sub__\<close> adds the negated operand.\<close>

definition dec_sub :: "decimal \<Rightarrow> decimal \<Rightarrow> decimal" where
  "dec_sub a b = dec_add a (dec_neg b)"

text \<open>\<open>Decimal.__mul__\<close>: the exact product, then rounded.\<close>

definition dec_mul :: "decimal \<Rightarrow> decimal \<Rightarrow> decimal" where
  "dec_mul a b = context_fix (Dec (coef a * coef b) (expo a + expo b))"

text \<open>
  The loop of \<open>Decimal.__truediv__\<close> for an exact quotient: trailing zeros are removed
  while the exponent is below the ideal exponent.
\<close>

function strip_zeros :: "int \<Rightarrow> int \<Rightarrow> int \<Rightarrow> int \<times> int" where
  "strip_zeros c e ideal =
     (if e < ideal \<and> c mod 10 = 0 then strip_zeros (c div 10) (e + 1) ideal else (c, e))"
  by pat_completeness auto
termination
  by (relation "measure (\<lambda>(c, e, ideal). nat (ideal - e))") auto

declare strip_zeros.simps [simp del]

text \<open>
  The coefficient and the exponent that \<open>Decimal.__truediv__\<close> computes for a nonzero
  divisor, before the sign is put back and the result is rounded: for a nonzero dividend
  the integer quotient of the magnitudes is taken with \<open>prec + 1\<close> digits or more, and its
  last place is made different from 0 and 5 when the division is not exact (so that the
  rounding that follows sees that something was cut off).
\<close>

definition div_coeff_exp :: "decimal \<Rightarrow> decimal \<Rightarrow> int \<times> int" where
  "div_coeff_exp a b =
     (if coef a = 0 then (0, expo a - expo b)
      else
        let x = \<bar>coef a\<bar>; y = \<bar>coef b\<bar>;
            shift = int (ndigits y) - int (ndigits x) + int prec + 1;
            e = expo a - expo b - shift;
            n = (if 0 \<le> shift then x * 10 ^ nat shift else x);
            m = (if 0 \<le> shift then y else y * 10 ^ nat (- shift));
            q = n div m; r = n mod m
        in if r \<noteq> 0 then (if q mod 5 = 0 then q + 1 else q, e)
           else strip_zeros q e (expo a - expo b))"

text \<open>
  \<open>Decimal.__truediv__\<close>: zero divided by zero raises \<open>InvalidOperation\<close>, another value
  divided by zero raises \<open>DivisionByZero\<close>; otherwise the quotient is rounded.
\<close>

definition dec_div :: "decimal \<Rightarrow> decimal \<Rightarrow> error + decimal" where
  "dec_div a b =
     (if coef b = 0 then (if coef a = 0 then Inl InvalidOperation else Inl DivisionByZero)
      else case div_coeff_exp a b of
             (c, e) \<Rightarrow> Inr (context_fix (Dec (sgn (coef a) * sgn (coef b) * c) e)))"

text \<open>
  \<open>Decimal._rescale\<close>: the value at the exponent \<open>e\<close>: padded with zeros when \<open>e\<close> is
  not above the exponent of the value, rounded half-even otherwise.
\<close>

definition rescale :: "decimal \<Rightarrow> int \<Rightarrow> decimal" where
  "rescale d e =
     (if e \<le> expo d then Dec (coef d * 10 ^ nat (expo d - e)) e
      else Dec (sgn (coef d) * round_half_even \<bar>coef d\<bar> (nat (e - expo d))) e)"

text \<open>\<open>Decimal.adjusted\<close>: the exponent of the most significant digit.\<close>

definition adjusted :: "decimal \<Rightarrow> int" where
  "adjusted d = int (ndigits \<bar>coef d\<bar>) + expo d - 1"

text \<open>
  \<open>Decimal.quantize\<close> with the rounding mode \<open>ROUND_HALF_EVEN\<close>: the value at the exponent
  \<open>e\<close>; it raises \<open>InvalidOperation\<close> when the result would have more than \<open>prec\<close> digits.
\<close>

definition quantize :: "decimal \<Rightarrow> int \<Rightarrow> error + decimal" where
  "quantize d e =
     (if coef d = 0 then Inr (Dec 0 e)
      else if int prec < adjusted d - e + 1 then Inl InvalidOperation
      else let ans = rescale d e
           in if prec < ndigits \<bar>coef ans\<bar> then Inl InvalidOperation else Inr ans)"

text \<open>
  \<open>finance_round(value, ndigits=2)\<close>; \<open>Decimal(10) ** -ndigits\<close> is the decimal \<open>1E-ndigits\<close>,
  of which \<open>quantize\<close> reads the exponent only.
\<close>

definition finance_round :: "decimal \<Rightarrow> nat \<Rightarrow> error + decimal" where
  "finance_round v nd = quantize v (- int nd)"

section \<open>Calendar dates of the library\<close>

text \<open>
  A \<open>datetime.date\<close> has a year, a month and a day. Python builds valid dates only:
  \<open>valid_date\<close> says what that means.
\<close>

datatype date = Date (year: int) (month: int) (day: int)

definition isleap :: "int \<Rightarrow> bool" where
  "isleap y = (y mod 4 = 0 \<and> (y mod 100 \<noteq> 0 \<or> y mod 400 = 0))"

text \<open>\<open>calendar.monthrange(y, m)[1]\<close>: the number of days of the month.\<close>

definition month_days :: "int \<Rightarrow> int \<Rightarrow> int" where
  "month_days y m =
     (if m = 2 then (if isleap y then 29 else 28)
      else if m = 4 \<or> m = 6 \<or> m = 9 \<or> m = 11 then 30 else 31)"

definition valid_date :: "date \<Rightarrow> bool" where
  "valid_date d = (1 \<le> year d \<and> year d \<le> 9999 \<and> 1 \<le> month d \<and> month d \<le> 12 \<and>
                   1 \<le> day d \<and> day d \<le> month_days (year d) (month d))"

definition days_before_year :: "int \<Rightarrow> int" where
  "days_before_year y = (y - 1) * 365 + (y - 1) div 4 - (y - 1) div 100 + (y - 1) div 400"

text \<open>The tables \<open>_DAYS_IN_MONTH\<close> and \<open>_DAYS_BEFORE_MONTH\<close>, with their placeholder at index 0.\<close>

definition DAYS_IN_MONTH :: "int list" where
  "DAYS_IN_MONTH = [-1, 31, 28, 31, 30, 31, 30, 31, 31, 30, 31, 30, 31]"

definition DAYS_BEFORE_MONTH :: "int list" where
  "DAYS_BEFORE_MONTH = [-1, 0, 31, 59, 90, 120, 151, 181, 212, 243, 273, 304, 334]"

definition days_before_month :: "int \<Rightarrow> int \<Rightarrow> int" where
  "days_before_month y m = DAYS_BEFORE_MONTH ! nat m + (if 2 < m \<and> isleap y then 1 else 0)"

text \<open>\<open>date.toordinal\<close>: the number of the day, 0001-01-01 being day 1.\<close>

definition toordinal :: "date \<Rightarrow> int" where
  "toordinal d = days_before_year (year d) + days_before_month (year d) (month d) + day d"

text \<open>
  \<open>date.fromordinal\<close> (\<open>_ord2ymd\<close>), for an ordinal in \<open>1..3652059\<close>: the ordinal is
  split into 400-year, 100-year, 4-year and 1-year cycles; the month is estimated by
  \<open>(n + 50) >> 5\<close> and corrected when the estimate is one too large.
\<close>

definition fromordinal :: "int \<Rightarrow> date" where
  "fromordinal n0 =
     (let n = n0 - 1;
          n400 = n div 146097; n = n mod 146097;
          n100 = n div 36524; n = n mod 36524;
          n4 = n div 1461; n = n mod 1461;
          n1 = n div 365; n = n mod 365;
          y = n400 * 400 + 1 + n100 * 100 + n4 * 4 + n1
      in if n1 = 4 \<or> n100 = 4 then Date (y - 1) 12 31
         else
           let leapyear = (n1 = 3 \<and> (n4 \<noteq> 24 \<or> n100 = 3));
               m = (n + 50) div 32;
               preceding = DAYS_BEFORE_MONTH ! nat m + (if 2 < m \<and> leapyear then 1 else 0)
           in if n < preceding
              then Date y (m - 1)
                     (n - (preceding - (DAYS_IN_MONTH ! nat (m - 1)
                                          + (if m - 1 = 2 \<and> leapyear then 1 else 0))) + 1)
              else Date y m (n - preceding + 1))"

text \<open>The order of dates (\<open>date.__lt__\<close>): by year, then month, then day.\<close>

definition date_lt :: "date \<Rightarrow> date \<Rightarrow> bool" where
  "date_lt a b =
     (year a < year b \<or>
      (year a = year b \<and> (month a < month b \<or> (month a = month b \<and> day a < day b))))"

text \<open>\<open>date + timedelta(days=k)\<close>: \<open>OverflowError\<close> outside the range of dates.\<close>

definition add_days :: "date \<Rightarrow> int \<Rightarrow> error + date" where
  "add_days d k =
     (let o' = toordinal d + k
      in if 0 < o' \<and> o' \<le> 3652059 then Inr (fromordinal o') else Inl OverflowError)"

text \<open>\<open>(end - start).days\<close>\<close>

definition days_between :: "date \<Rightarrow> date \<Rightarrow> int" where
  "days_between start_date end_date = toordinal end_date - toordinal start_date"

text \<open>
  \<open>date + relativedelta(months=k)\<close> of dateutil, for \<open>1 \<le> k \<le> 12\<close>: the constructor turns
  twelve months into one year; the month is advanced and wraps into the next year, the day
  is cut to the length of the new month, and \<open>date.replace\<close> raises \<open>ValueError\<close> when
  the year leaves 1..9999.
\<close>

definition add_months :: "date \<Rightarrow> int \<Rightarrow> error + date" where
  "add_months d k =
     (let years = k div 12; months = k mod 12;
          y = year d + years; m = month d + months;
          y' = (if 12 < m then y + 1 else y);
          m' = (if 12 < m then m - 12 else m);
          dd = min (month_days y' m') (day d)
      in if 9999 < y' then Inl ValueError else Inr (Date y' m' dd))"

text \<open>
  \<open>date + relativedelta(weeks=k)\<close>: the date is replaced by itself and \<open>7 * k\<close> days are
  added.
\<close>

definition add_weeks :: "date \<Rightarrow> int \<Rightarrow> error + date" where
  "add_weeks d k = add_days d (7 * k)"

section \<open>Day-count conventions\<close>

text \<open>
  The four static methods of \<open>DayCountConvention\<close>. Each returns the pair of the year
  fraction and the day count; \<open>Decimal(days)\<close> is the decimal \<open>days\<close> with exponent 0. The
  division is the division of the decimal library, so the result type has the error branch.
\<close>

definition year_fraction_30_360 :: "date \<Rightarrow> date \<Rightarrow> error + (decimal \<times> int)" where
  "year_fraction_30_360 start_date end_date =
     (let d1 = min (day start_date) 30;
          d2 = min (day end_date) 30;
          days = (year end_date - year start_date) * 360
                   + (month end_date - month start_date) * 30 + (d2 - d1)
      in bindE (dec_div (Dec days 0) (Dec 360 0)) (\<lambda>q. Inr (q, days)))"

definition year_fraction_actual_360 :: "date \<Rightarrow> date \<Rightarrow> error + (decimal \<times> int)" where
  "year_fraction_actual_360 start_date end_date =
     (let days = days_between start_date end_date
      in bindE (dec_div (Dec days 0) (Dec 360 0)) (\<lambda>q. Inr (q, days)))"

definition year_fraction_actual_365 :: "date \<Rightarrow> date \<Rightarrow> error + (decimal \<times> int)" where
  "year_fraction_actual_365 start_date end_date =
     (let days = days_between start_date end_date
      in bindE (dec_div (Dec days 0) (Dec 365 0)) (\<lambda>q. Inr (q, days)))"

definition year_fraction_actual_actual :: "date \<Rightarrow> date \<Rightarrow> error + (decimal \<times> int)" where
  "year_fraction_actual_actual start_date end_date =
     (let days = days_between start_date end_date;
          year_days = (if isleap (year start_date) then 366 else 365)
      in bindE (dec_div (Dec days 0) (Dec year_days 0)) (\<lambda>q. Inr (q, days)))"

section \<open>The calculator\<close>

text \<open>
  The attributes that \<open>EMI_Calculator.__init__\<close> sets. \<open>dcc\<close> holds the day-count function
  that the convention code selects.
\<close>

record EMI_Calculator =
  P :: decimal
  R :: decimal
  start_date :: date
  years :: int
  convention :: string
  frequency :: string
  periods_per_year :: int
  terms :: int
  dcc :: "date \<Rightarrow> date \<Rightarrow> error + (decimal \<times> int)"
  emi :: decimal

text \<open>A dictionary lookup \<open>table[key]\<close> raises \<open>KeyError\<close> for a key that is not there.\<close>

definition lookup :: "('k \<rightharpoonup> 'v) \<Rightarrow> 'k \<Rightarrow> error + 'v" where
  "lookup table k = (case table k of None \<Rightarrow> Inl KeyError | Some v \<Rightarrow> Inr v)"

definition periods_per_year_table :: "string \<rightharpoonup> int" where
  "periods_per_year_table =
     map_of [(''W'', 52), (''BW'', 26), (''M'', 12), (''Q'', 4), (''S'', 2), (''A'', 1)]"

definition dcc_table :: "string \<rightharpoonup> (date \<Rightarrow> date \<Rightarrow> error + (decimal \<times> int))" where
  "dcc_table =
     map_of [(''30/360'', year_fraction_30_360),
             (''Actual/360'', year_fraction_actual_360),
             (''Actual/365'', year_fraction_actual_365),
             (''Actual/Actual'', year_fraction_actual_actual)]"

text \<open>
  The test of \<open>_adjust_end_of_month\<close>: the date is the last day of its month
  (\<open>date.day == cal.monthrange(date.year, date.month)[1]\<close>).
\<close>

definition is_month_end :: "date \<Rightarrow> bool" where
  "is_month_end d = (day d = month_days (year d) (month d))"

text \<open>\<open>_adjust_end_of_month\<close>\<close>

definition adjust_end_of_month :: "date \<Rightarrow> int \<Rightarrow> error + date" where
  "adjust_end_of_month d months_to_add =
     bindE (add_months d months_to_add) (\<lambda>new_date.
       let last_day = month_days (year new_date) (month new_date)
       in if day d = month_days (year d) (month d)
          then Inr (Date (year new_date) (month new_date) last_day)
          else Inr new_date)"

text \<open>
  The body of the loop of \<open>_generate_payment_dates\<close>: the \<open>if\<close>/\<open>elif\<close> chain on the
  frequency code; with no branch taken the date stays as it is.
\<close>

definition roll_date :: "string \<Rightarrow> date \<Rightarrow> error + date" where
  "roll_date f d =
     (if f = ''W'' then add_weeks d 1
      else if f = ''BW'' then add_weeks d 2
      else if f = ''M'' then adjust_end_of_month d 1
      else if f = ''Q'' then adjust_end_of_month d 3
      else if f = ''S'' then adjust_end_of_month d 6
      else if f = ''A'' then adjust_end_of_month d 12
      else Inr d)"

text \<open>The loop \<open>for _ in range(self.terms)\<close>, with the iterations that remain.\<close>

fun generate_loop :: "string \<Rightarrow> nat \<Rightarrow> date \<Rightarrow> date list \<Rightarrow> error + date list" where
  "generate_loop f 0 d dates = Inr dates"
| "generate_loop f (Suc n) d dates =
     (case roll_date f d of
        Inl e \<Rightarrow> Inl e
      | Inr d' \<Rightarrow> generate_loop f n d' (dates @ [d']))"

text \<open>\<open>_generate_payment_dates\<close>; \<open>range\<close> of a negative number is empty.\<close>

definition generate_payment_dates :: "EMI_Calculator \<Rightarrow> error + date list" where
  "generate_payment_dates self =
     generate_loop (frequency self) (nat (terms self)) (start_date self) [start_date self]"

text \<open>
  The loop of \<open>calculate_emi\<close> over \<open>dates[1:]\<close>, with its variables \<open>prev_date\<close>, \<open>F\<close> and
  \<open>product\<close>; it returns \<open>F\<close>.
\<close>

fun emi_loop ::
  "EMI_Calculator \<Rightarrow> date list \<Rightarrow> date \<Rightarrow> decimal \<Rightarrow> decimal \<Rightarrow> error + decimal" where
  "emi_loop self [] prev_date F product = Inr F"
| "emi_loop self (pay_date # rest) prev_date F product =
     (case dcc self prev_date pay_date of
        Inl e \<Rightarrow> Inl e
      | Inr (yf, days) \<Rightarrow>
          let factor = dec_add (Dec 1 0) (dec_mul (R self) yf);
              product' = dec_mul product factor
          in (case dec_div (Dec 1 0) product' of
                Inl e \<Rightarrow> Inl e
              | Inr t \<Rightarrow> emi_loop self rest pay_date (dec_add F t) product'))"

text \<open>\<open>calculate_emi\<close>; it reads every attribute but \<open>emi\<close>, which it computes.\<close>

definition calculate_emi :: "EMI_Calculator \<Rightarrow> error + decimal" where
  "calculate_emi self =
     bindE (generate_payment_dates self) (\<lambda>dates.
     bindE (emi_loop self (drop 1 dates) (start_date self) (Dec 0 0) (Dec 1 0)) (\<lambda>F.
     bindE (dec_div (P self) F) (\<lambda>e. finance_round e 2)))"

text \<open>
  \<open>EMI_Calculator.__init__\<close>: the rate is divided by 100, the two codes are looked up, and
  the installment is computed. An exception of any step leaves no object. The principal
  and the rate arrive as finite decimals (\<open>Decimal(principal)\<close> of a decimal is that
  decimal); a \<open>NaN\<close> or an infinity passed as principal or rate is outside this model.
\<close>

definition EMI_Calculator_init ::
  "decimal \<Rightarrow> decimal \<Rightarrow> date \<Rightarrow> int \<Rightarrow> string \<Rightarrow> string \<Rightarrow> error + EMI_Calculator" where
  "EMI_Calculator_init principal' annual_rate start years' convention' frequency' =
     bindE (dec_div annual_rate (Dec 100 0)) (\<lambda>r.
     bindE (lookup periods_per_year_table frequency') (\<lambda>ppy.
     bindE (lookup dcc_table convention') (\<lambda>f.
       let self = \<lparr>P = principal', R = r, start_date = start, years = years',
                   convention = convention', frequency = frequency',
                   periods_per_year = ppy, terms = years' * ppy, dcc = f, emi = Dec 0 0\<rparr>
       in bindE (calculate_emi self) (\<lambda>e. Inr (self\<lparr>emi := e\<rparr>)))))"

text \<open>
  A row of the schedule: the dictionary that \<open>get_schedule\<close> appends, one field for each
  key. \<open>Payment_Date\<close> is the date that the program formats with \<open>strftime\<close>.
\<close>

record schedule_row =
  Payment_No :: int
  Payment_Date :: date
  Opening_Balance :: decimal
  Principal :: decimal
  Interest :: decimal
  EMI :: decimal
  Closing_Balance :: decimal

text \<open>
  The body of the loop of \<open>get_schedule\<close> for the payment number \<open>i\<close>, the dates
  \<open>prev_date\<close> and \<open>pay_date\<close> and the balance carried into the period: it returns the
  row that is appended and the balance carried out. In the last period (\<open>i == self.terms\<close>)
  the balance that is left is added to the principal, the installment of the row is
  recomputed, and the balance becomes \<open>Decimal("0.00")\<close>.
\<close>

definition schedule_step ::
  "EMI_Calculator \<Rightarrow> int \<Rightarrow> date \<Rightarrow> date \<Rightarrow> decimal \<Rightarrow> error + (schedule_row \<times> decimal)" where
  "schedule_step self i prev_date pay_date balance =
     (case dcc self prev_date pay_date of
        Inl e \<Rightarrow> Inl e
      | Inr (yf, days) \<Rightarrow>
     (case finance_round (dec_mul (dec_mul balance (R self)) yf) 2 of
        Inl e \<Rightarrow> Inl e
      | Inr interest \<Rightarrow>
          let principal0 = dec_sub (emi self) interest;
              balance0 = dec_sub balance principal0;
              principal' = (if i = terms self then dec_add principal0 balance0 else principal0);
              emi' = (if i = terms self then dec_add principal' interest else emi self);
              balance' = (if i = terms self then Dec 0 (- 2) else balance0)
          in
     (case finance_round (dec_add balance' principal') 2 of
        Inl e \<Rightarrow> Inl e
      | Inr opening \<Rightarrow>
     (case finance_round principal' 2 of
        Inl e \<Rightarrow> Inl e
      | Inr principal_r \<Rightarrow>
     (case finance_round interest 2 of
        Inl e \<Rightarrow> Inl e
      | Inr interest_r \<Rightarrow>
     (case finance_round emi' 2 of
        Inl e \<Rightarrow> Inl e
      | Inr emi_r \<Rightarrow>
     (case finance_round balance' 2 of
        Inl e \<Rightarrow> Inl e
      | Inr closing \<Rightarrow>
          Inr (\<lparr>Payment_No = i, Payment_Date = pay_date, Opening_Balance = opening,
                 Principal = principal_r, Interest = interest_r, EMI = emi_r,
                 Closing_Balance = closing\<rparr>, balance'))))))))"

text \<open>
  The loop of \<open>get_schedule\<close> over \<open>enumerate(dates[1:], start=1)\<close>, with its variables
  \<open>prev_date\<close>, \<open>balance\<close> and \<open>schedule\<close>.
\<close>

fun schedule_loop ::
  "EMI_Calculator \<Rightarrow> int \<Rightarrow> date list \<Rightarrow> date \<Rightarrow> decimal \<Rightarrow> schedule_row list
     \<Rightarrow> error + schedule_row list" where
  "schedule_loop self i [] prev_date balance schedule = Inr schedule"
| "schedule_loop self i (pay_date # rest) prev_date balance schedule =
     (case schedule_step self i prev_date pay_date balance of
        Inl e \<Rightarrow> Inl e
      | Inr (row, balance') \<Rightarrow>
          schedule_loop self (i + 1) rest pay_date balance' (schedule @ [row]))"

text \<open>\<open>get_schedule\<close>\<close>

definition get_schedule :: "EMI_Calculator \<Rightarrow> error + schedule_row list" where
  "get_schedule self =
     bindE (generate_payment_dates self) (\<lambda>dates.
       schedule_loop self 1 (drop 1 dates) (start_date self) (P self) [])"

section \<open>The installment solver in the words of the specification\<close>

text \<open>
  The value of a decimal as a rational number.
\<close>

definition val :: "decimal \<Rightarrow> rat" where
  "val d = of_int (coef d) * 10 powi expo d"

text \<open>
  Rounding half to even, on exact numbers: the integer \<open>n\<close> is the rounding of \<open>x\<close> when it
  is nearer to \<open>x\<close> than every other integer, or \<open>x\<close> lies halfway between two integers
  and \<open>n\<close> is the even one.
\<close>

definition rounds_half_even :: "rat \<Rightarrow> int \<Rightarrow> bool" where
  "rounds_half_even x n =
     (\<bar>x - of_int n\<bar> < 1 / 2 \<or> (\<bar>x - of_int n\<bar> = 1 / 2 \<and> even n))"

text \<open>
  The accumulation of the specification over the consecutive date pairs, in order: the
  product accumulator is multiplied by \<open>1 + R * yearFraction\<close> and its reciprocal is added
  to \<open>F\<close>. The arithmetic is that of the decimal type.
\<close>

fun accumulate_spec ::
  "decimal \<Rightarrow> (date \<Rightarrow> date \<Rightarrow> error + (decimal \<times> int)) \<Rightarrow> (date \<times> date) list
     \<Rightarrow> decimal \<Rightarrow> decimal \<Rightarrow> error + decimal" where
  "accumulate_spec rate yearFraction [] accumulator F = Inr F"
| "accumulate_spec rate yearFraction ((prev, pay) # pairs) accumulator F =
     (case yearFraction prev pay of
        Inl e \<Rightarrow> Inl e
      | Inr (yf, days) \<Rightarrow>
          let periodFactor = dec_add (Dec 1 0) (dec_mul rate yf);
              accumulator' = dec_mul accumulator periodFactor
          in (case dec_div (Dec 1 0) accumulator' of
                Inl e \<Rightarrow> Inl e
              | Inr reciprocal \<Rightarrow>
                  accumulate_spec rate yearFraction pairs accumulator' (dec_add F reciprocal)))"

text \<open>
  The installment of the specification: \<open>R = annualRatePercent / 100\<close>, the accumulators
  start at 1 and 0, and the result is \<open>round(principal / F, 2)\<close>.
\<close>

definition installment_spec ::
  "decimal \<Rightarrow> decimal \<Rightarrow> (date \<Rightarrow> date \<Rightarrow> error + (decimal \<times> int)) \<Rightarrow> date list
     \<Rightarrow> error + decimal" where
  "installment_spec principal' annualRatePercent yearFraction dates =
     bindE (dec_div annualRatePercent (Dec 100 0)) (\<lambda>rate.
     bindE (accumulate_spec rate yearFraction (zip dates (tl dates)) (Dec 1 0) (Dec 0 0)) (\<lambda>F.
     bindE (dec_div principal' F) (\<lambda>q. finance_round q 2)))"

section \<open>Amounts in whole cents and in the ordinary range\<close>





text \<open>
  The ordinary range of a loan and its schedule: the principal has at most ten fractional
  digits, and the principal, the installment and the interest and the closing balance of
  every row are below \<open>10 ^ 15\<close> in absolute value. Within it no addition or subtraction
  of \<open>get_schedule\<close> reaches the 28 digits of the precision.
\<close>

definition within_limits :: "EMI_Calculator \<Rightarrow> schedule_row list \<Rightarrow> bool" where
  "within_limits self rows =
     (- 10 \<le> expo (P self) \<and> \<bar>val (P self)\<bar> < 10 ^ 15 \<and> \<bar>val (emi self)\<bar> < 10 ^ 15 \<and>
      list_all (\<lambda>r. \<bar>val (Interest r)\<bar> < 10 ^ 15 \<and> \<bar>val (Closing_Balance r)\<bar> < 10 ^ 15) rows)"

section \<open>Example loans\<close>


text \<open>
  A calculator object for a weekly loan of one year that starts on the last day of a month.
\<close>

definition weekly_loan :: EMI_Calculator where
  "weekly_loan =
     \<lparr>P = Dec 10000 0, R = Dec 9 (- 2), start_date = Date 2024 1 31, years = 1,
       convention = ''Actual/365'', frequency = ''W'', periods_per_year = 52, terms = 52,
       dcc = year_fraction_actual_365, emi = Dec 20123 (- 2)\<rparr>"

text \<open>
  The calculator object for 1000.00 at 12 percent from 2024-01-15 for one year,
  semi-annual, 30/360.
\<close>

definition example_loan :: EMI_Calculator where
  "example_loan =
     \<lparr>P = Dec 100000 (- 2), R = Dec 12 (- 2), start_date = Date 2024 1 15, years = 1,
       convention = ''30/360'', frequency = ''S'', periods_per_year = 2, terms = 2,
       dcc = year_fraction_30_360, emi = Dec 54544 (- 2)\<rparr>"

definition example_schedule :: "schedule_row list" where
  "example_schedule =
     [\<lparr>Payment_No = 1, Payment_Date = Date 2024 7 15,
        Opening_Balance = Dec 100000 (- 2), Principal = Dec 48544 (- 2),
        Interest = Dec 6000 (- 2), EMI = Dec 54544 (- 2),
        Closing_Balance = Dec 51456 (- 2)\<rparr>,
      \<lparr>Payment_No = 2, Payment_Date = Date 2025 1 15,
        Opening_Balance = Dec 51456 (- 2), Principal = Dec 51456 (- 2),
        Interest = Dec 3087 (- 2), EMI = Dec 54543 (- 2),
        Closing_Balance = Dec 0 (- 2)\<rparr>]"

text \<open>The same loan with a principal of 100.005, which is not a whole number of cents.\<close>

definition half_cent_loan :: EMI_Calculator where
  "half_cent_loan =
     \<lparr>P = Dec 100005 (- 3), R = Dec 12 (- 2), start_date = Date 2024 1 15, years = 1,
       convention = ''30/360'', frequency = ''S'', periods_per_year = 2, terms = 2,
       dcc = year_fraction_30_360, emi = Dec 5455 (- 2)\<rparr>"

definition half_cent_schedule :: "schedule_row list" where
  "half_cent_schedule =
     [\<lparr>Payment_No = 1, Payment_Date = Date 2024 7 15,
        Opening_Balance = Dec 10000 (- 2), Principal = Dec 4855 (- 2),
        Interest = Dec 600 (- 2), EMI = Dec 5455 (- 2),
        Closing_Balance = Dec 5146 (- 2)\<rparr>,
      \<lparr>Payment_No = 2, Payment_Date = Date 2025 1 15,
        Opening_Balance = Dec 5146 (- 2), Principal = Dec 5146 (- 2),
        Interest = Dec 309 (- 2), EMI = Dec 5454 (- 2),
        Closing_Balance = Dec 0 (- 2)\<rparr>]"

section \<open>Basic facts\<close>

lemma bindE_Inr [simp]: "bindE (Inr x) f = f x"
  by (simp add: bindE_def)

lemma bindE_Inl [simp]: "bindE (Inl e) f = Inl e"
  by (simp add: bindE_def)

lemma bindE_eq_Inr: "bindE m f = Inr y \<longleftrightarrow> (\<exists>x. m = Inr x \<and> f x = Inr y)"
  by (cases m) simp_all

text \<open>A division by a nonzero decimal raises nothing.\<close>

lemma dec_div_total: "coef b \<noteq> 0 \<Longrightarrow> \<exists>q. dec_div a b = Inr q"
  by (simp add: dec_div_def split: prod.split)

lemma dec_div_by_zero:
  "dec_div a (Dec 0 e) = Inl (if coef a = 0 then InvalidOperation else DivisionByZero)"
  by (simp add: dec_div_def)

section \<open>Day-count conventions: the year fractions\<close>

lemma year_fraction_30_360_unfold:
  "year_fraction_30_360 s e =
     bindE (dec_div (Dec ((year e - year s) * 360 + (month e - month s) * 30
                            + (min (day e) 30 - min (day s) 30)) 0) (Dec 360 0))
       (\<lambda>q. Inr (q, (year e - year s) * 360 + (month e - month s) * 30
                        + (min (day e) 30 - min (day s) 30)))"
  unfolding year_fraction_30_360_def Let_def ..

lemma quotient_then_pair:
  assumes "coef b \<noteq> 0"
  shows "\<exists>q. dec_div a b = Inr q \<and> bindE (dec_div a b) (\<lambda>q. Inr (q, n)) = Inr (q, n)"
proof -
  obtain q where "dec_div a b = Inr q"
    using dec_div_total [OF assms] by blast
  then show ?thesis by (simp only: bindE_Inr) blast
qed

lemma coef_Dec_360: "coef (Dec 360 0) \<noteq> 0"
  by simp

lemma year_fraction_30_360_general:
  "\<exists>q. dec_div (Dec ((year e - year s) * 360 + (month e - month s) * 30
                        + (min (day e) 30 - min (day s) 30)) 0) (Dec 360 0) = Inr q
       \<and> year_fraction_30_360 s e =
           Inr (q, (year e - year s) * 360 + (month e - month s) * 30
                     + (min (day e) 30 - min (day s) 30))"
  unfolding year_fraction_30_360_unfold
  by (rule quotient_then_pair [OF coef_Dec_360])

lemma decimal_30_over_360:
  "dec_div (Dec 30 0) (Dec 360 0) = Inr (Dec 8333333333333333333333333333 (- 29))"
  by code_simp

lemma decimal_31_over_365:
  "dec_div (Dec 31 0) (Dec 365 0) = Inr (Dec 8493150684931506849315068493 (- 29))"
  by code_simp

lemma thirty360_january_to_february:
  "year_fraction_30_360 (Date 2024 1 15) (Date 2024 2 15)
     = Inr (Dec 8333333333333333333333333333 (- 29), 30)"
  by code_simp

lemma actual365_january_to_february:
  "year_fraction_actual_365 (Date 2024 1 15) (Date 2024 2 15)
     = Inr (Dec 8493150684931506849315068493 (- 29), 31)"
  by code_simp

text \<open>
  Claim C5. The Thirty360 year fraction of any two dates is the decimal quotient of
  \<open>rawDays\<close> by 360, returned with \<open>rawDays\<close>, where \<open>rawDays\<close> is 360 times the difference
  of the years plus 30 times the difference of the months plus the difference of the days
  cut at 30; the division raises nothing. Between 2024-01-15 and 2024-02-15 the result is
  \<open>Decimal(30) / Decimal(360)\<close> with 30 days, and ActualOver365 gives
  \<open>Decimal(31) / Decimal(365)\<close> with 31 days. The quotients are those of the decimal
  library at 28 significant digits: \<open>0.08333333333333333333333333333\<close> and
  \<open>0.08493150684931506849315068493\<close>.
\<close>

theorem year_fraction_30_360_raw_days:
  "(\<exists>q. dec_div (Dec ((year e - year s) * 360 + (month e - month s) * 30
                         + (min (day e) 30 - min (day s) 30)) 0) (Dec 360 0) = Inr q
        \<and> year_fraction_30_360 s e =
            Inr (q, (year e - year s) * 360 + (month e - month s) * 30
                      + (min (day e) 30 - min (day s) 30)))
   \<and> dec_div (Dec 30 0) (Dec 360 0) = Inr (Dec 8333333333333333333333333333 (- 29))
   \<and> year_fraction_30_360 (Date 2024 1 15) (Date 2024 2 15)
        = Inr (Dec 8333333333333333333333333333 (- 29), 30)
   \<and> dec_div (Dec 31 0) (Dec 365 0) = Inr (Dec 8493150684931506849315068493 (- 29))
   \<and> year_fraction_actual_365 (Date 2024 1 15) (Date 2024 2 15)
        = Inr (Dec 8493150684931506849315068493 (- 29), 31)"
  by (intro conjI year_fraction_30_360_general decimal_30_over_360
        thirty360_january_to_february decimal_31_over_365 actual365_january_to_february)

section \<open>Construction with a non-positive term or principal\<close>

lemma lookup_eq_Inr: "lookup t k = Inr v \<longleftrightarrow> t k = Some v"
  by (simp add: lookup_def split: option.split)


lemma generate_payment_dates_no_terms:
  "terms self \<le> 0 \<Longrightarrow> generate_payment_dates self = Inr [start_date self]"
  by (simp add: generate_payment_dates_def)

text \<open>
  With no period the loop of \<open>calculate_emi\<close> leaves \<open>F\<close> at zero, and the division of the
  principal by \<open>F\<close> raises.
\<close>

lemma calculate_emi_no_terms:
  assumes "terms self \<le> 0"
  shows "calculate_emi self = Inl (if coef (P self) = 0 then InvalidOperation else DivisionByZero)"
  unfolding calculate_emi_def generate_payment_dates_no_terms [OF assms]
  by (simp add: dec_div_by_zero)




section \<open>Digits and rounding: facts about the decimal operations\<close>

lemma ndigits_pos: "0 < ndigits n"
  by (subst ndigits.simps) simp

lemma ndigits_small: "n < 10 \<Longrightarrow> ndigits n = 1"
  by (subst ndigits.simps) simp

lemma ndigits_step: "\<not> n < 10 \<Longrightarrow> ndigits n = Suc (ndigits (n div 10))"
  by (subst ndigits.simps) simp

lemma ndigits_upper: "n < 10 ^ ndigits n"
proof (induction n rule: ndigits.induct)
  case (1 n)
  show ?case
  proof (cases "n < 10")
    case True
    then show ?thesis by (simp add: ndigits_small)
  next
    case False
    then have "n div 10 < 10 ^ ndigits (n div 10)" by (rule "1.IH")
    then have "n < 10 * 10 ^ ndigits (n div 10)" by linarith
    then show ?thesis using False by (simp add: ndigits_step)
  qed
qed

lemma ndigits_lower: "0 < n \<Longrightarrow> 10 ^ (ndigits n - 1) \<le> n"
proof (induction n rule: ndigits.induct)
  case (1 n)
  show ?case
  proof (cases "n < 10")
    case True
    then show ?thesis using "1.prems" by (simp add: ndigits_small)
  next
    case False
    then have "0 < n div 10" by linarith
    with False have "10 ^ (ndigits (n div 10) - 1) \<le> n div 10" by (rule "1.IH")
    then have "10 * 10 ^ (ndigits (n div 10) - 1) \<le> n" by linarith
    moreover have "10 * (10::int) ^ (ndigits (n div 10) - 1) = 10 ^ ndigits (n div 10)"
      using ndigits_pos [of "n div 10"] by (cases "ndigits (n div 10)") simp_all
    ultimately show ?thesis using False by (simp add: ndigits_step)
  qed
qed

text \<open>A magnitude has at most \<open>k\<close> digits exactly when it is below \<open>10 ^ k\<close>.\<close>

lemma ndigits_le_iff:
  assumes "0 \<le> n" "0 < k"
  shows "ndigits n \<le> k \<longleftrightarrow> n < 10 ^ k"
proof
  assume "ndigits n \<le> k"
  then have "(10::int) ^ ndigits n \<le> 10 ^ k" by (simp add: power_increasing)
  with ndigits_upper [of n] show "n < 10 ^ k" by linarith
next
  assume lt: "n < 10 ^ k"
  show "ndigits n \<le> k"
  proof (cases "n = 0")
    case True
    then show ?thesis using assms(2) by (simp add: ndigits_small)
  next
    case False
    with assms have "0 < n" by simp
    then have "10 ^ (ndigits n - 1) \<le> n" by (rule ndigits_lower)
    with lt have "(10::int) ^ (ndigits n - 1) < 10 ^ k" by linarith
    then have "ndigits n - 1 < k" by (simp add: power_strict_increasing_iff)
    then show ?thesis by simp
  qed
qed

lemma round_half_even_bounds:
  "m div 10 ^ k \<le> round_half_even m k \<and> round_half_even m k \<le> m div 10 ^ k + 1"
  by (simp add: round_half_even_def Let_def)

lemma context_fix_exact: "ndigits \<bar>coef d\<bar> \<le> prec \<Longrightarrow> context_fix d = d"
  by (simp add: context_fix_def Let_def)

lemma context_fix_zero: "coef d = 0 \<Longrightarrow> context_fix d = d"
  by (simp add: context_fix_def Let_def)

lemma context_fix_sgn: "sgn (coef (context_fix d)) = sgn (coef d)"
proof (cases "coef d = 0 \<or> ndigits \<bar>coef d\<bar> \<le> prec")
  case True
  then show ?thesis by (auto simp: context_fix_exact context_fix_zero)
next
  case False
  define m where "m = \<bar>coef d\<bar>"
  define k where "k = ndigits m - prec"
  define c where "c = round_half_even m k"
  from False have m_pos: "0 < m" and long: "prec < ndigits m"
    by (simp_all add: m_def)
  have "(10::int) ^ k \<le> 10 ^ (ndigits m - 1)"
    using long by (intro power_increasing) (simp_all add: k_def prec_def)
  also have "\<dots> \<le> m" using m_pos by (rule ndigits_lower)
  finally have "0 < m div 10 ^ k"
    by (simp add: pos_imp_zdiv_pos_iff)
  then have c_pos: "0 < c"
    using round_half_even_bounds [of m k] by (simp add: c_def)
  have c10: "0 < c div 10" if "prec < ndigits c"
  proof -
    have "\<not> c < 10 ^ prec"
      using that ndigits_le_iff [of c prec] c_pos by (simp add: prec_def)
    then have "10 \<le> c" by (simp add: prec_def)
    then show ?thesis by linarith
  qed
  have "context_fix d =
          (if prec < ndigits c then Dec (sgn (coef d) * (c div 10)) (expo d + int k + 1)
           else Dec (sgn (coef d) * c) (expo d + int k))"
    using False by (simp add: context_fix_def Let_def m_def [symmetric] k_def [symmetric] c_def [symmetric])
  then show ?thesis
    using c_pos c10 by (auto simp: sgn_mult)
qed

lemma strip_zeros_pos: "0 < c \<Longrightarrow> 0 < fst (strip_zeros c e i)"
proof (induction c e i rule: strip_zeros.induct)
  case (1 c e ideal)
  show ?case
  proof (cases "e < ideal \<and> c mod 10 = 0")
    case True
    with "1.prems" have "0 < c div 10" by presburger
    with True have "0 < fst (strip_zeros (c div 10) (e + 1) ideal)" by (rule "1.IH")
    then show ?thesis using True by (subst strip_zeros.simps) simp
  next
    case False
    then show ?thesis using "1.prems" by (subst strip_zeros.simps) auto
  qed
qed

lemma div_operands_ordered:
  fixes x y :: int
  assumes x: "0 < x" and y: "0 < y"
  defines "shift \<equiv> int (ndigits y) - int (ndigits x) + int prec + 1"
  shows "(if 0 \<le> shift then y else y * 10 ^ nat (- shift))
           \<le> (if 0 \<le> shift then x * 10 ^ nat shift else x)"
proof (cases "0 \<le> shift")
  case True
  have "y < 10 ^ ndigits y" by (rule ndigits_upper)
  also have "(10::int) ^ ndigits y \<le> 10 ^ (ndigits x - 1 + nat shift)"
    using True ndigits_pos [of x] by (intro power_increasing) (simp_all add: shift_def prec_def)
  also have "\<dots> = 10 ^ (ndigits x - 1) * 10 ^ nat shift" by (simp add: power_add)
  also have "\<dots> \<le> x * 10 ^ nat shift"
    using ndigits_lower [OF x] by (intro mult_right_mono) simp_all
  finally show ?thesis using True by simp
next
  case False
  have "y * 10 ^ nat (- shift) \<le> 10 ^ ndigits y * 10 ^ nat (- shift)"
    using ndigits_upper [of y] by (intro mult_right_mono) simp_all
  also have "\<dots> = 10 ^ (ndigits y + nat (- shift))" by (simp add: power_add)
  also have "\<dots> \<le> 10 ^ (ndigits x - 1)"
    using False by (intro power_increasing) (simp_all add: shift_def prec_def)
  also have "\<dots> \<le> x" using x by (rule ndigits_lower)
  finally show ?thesis using False by simp
qed

lemma div_coeff_pos:
  assumes "coef a \<noteq> 0" "coef b \<noteq> 0"
  shows "0 < fst (div_coeff_exp a b)"
proof -
  define x where "x = \<bar>coef a\<bar>"
  define y where "y = \<bar>coef b\<bar>"
  define shift where "shift = int (ndigits y) - int (ndigits x) + int prec + 1"
  define n where "n = (if 0 \<le> shift then x * 10 ^ nat shift else x)"
  define m where "m = (if 0 \<le> shift then y else y * 10 ^ nat (- shift))"
  have x: "0 < x" and y: "0 < y" using assms by (simp_all add: x_def y_def)
  have "m \<le> n"
    unfolding m_def n_def shift_def by (rule div_operands_ordered [OF x y])
  moreover have "0 < m" using y by (simp add: m_def)
  ultimately have q: "0 < n div m" by (simp add: pos_imp_zdiv_pos_iff)
  have "div_coeff_exp a b =
          (if n mod m \<noteq> 0 then (if (n div m) mod 5 = 0 then n div m + 1 else n div m,
                                  expo a - expo b - shift)
           else strip_zeros (n div m) (expo a - expo b - shift) (expo a - expo b))"
    unfolding div_coeff_exp_def Let_def n_def m_def shift_def x_def y_def
    by (simp only: assms(1) if_False)
  then show ?thesis
    using q strip_zeros_pos [OF q] by auto
qed

lemma dec_div_sgn:
  assumes "coef b \<noteq> 0" "dec_div a b = Inr q"
  shows "sgn (coef q) = sgn (coef a) * sgn (coef b)"
proof (cases "coef a = 0")
  case True
  then show ?thesis
    using assms by (auto simp: dec_div_def div_coeff_exp_def context_fix_zero)
next
  case False
  obtain c e where ce: "div_coeff_exp a b = (c, e)" by (cases "div_coeff_exp a b")
  have "0 < c" using div_coeff_pos [OF False assms(1)] ce by simp
  moreover have "q = context_fix (Dec (sgn (coef a) * sgn (coef b) * c) e)"
    using assms ce by (simp add: dec_div_def)
  ultimately show ?thesis
    by (simp add: context_fix_sgn sgn_mult)
qed

section \<open>Facts about dates\<close>

lemma div_step:
  fixes y d :: int
  assumes "0 < d"
  shows "y div d = (y - 1) div d + (if y mod d = 0 then 1 else 0)"
proof (cases "y mod d = 0")
  case True
  have "y - 1 = d * (y div d - 1) + (d - 1)"
    using True mult_div_mod_eq [of d y] by (simp add: algebra_simps)
  then have "(y - 1) div d = y div d - 1"
    by (rule int_div_pos_eq) (use assms in simp_all)
  then show ?thesis using True by simp
next
  case False
  have "0 \<le> y mod d" and u: "y mod d < d" using assms by simp_all
  with False have r: "0 \<le> y mod d - 1" by simp
  have "y - 1 = d * (y div d) + (y mod d - 1)"
    using mult_div_mod_eq [of d y] by simp
  then have "(y - 1) div d = y div d"
    using r by (rule int_div_pos_eq) (use u in linarith)
  then show ?thesis using False by simp
qed

lemma mod_0_coarser:
  fixes y :: int
  assumes "y mod a = 0" "b dvd a"
  shows "y mod b = 0"
proof -
  from assms(1) have "a dvd y" by (simp add: dvd_eq_mod_eq_0)
  with assms(2) have "b dvd y" by (rule dvd_trans)
  then show ?thesis by (simp add: dvd_eq_mod_eq_0)
qed

lemma days_before_year_Suc:
  "days_before_year (y + 1) = days_before_year y + (if isleap y then 366 else 365)"
proof -
  define q4 q100 q400 where "q4 = (y - 1) div 4" and "q100 = (y - 1) div 100"
    and "q400 = (y - 1) div 400"
  define p4 p100 p400 where "p4 \<longleftrightarrow> y mod 4 = 0" and "p100 \<longleftrightarrow> y mod 100 = 0"
    and "p400 \<longleftrightarrow> y mod 400 = 0"
  have a: "y div 4 = q4 + (if p4 then 1 else 0)"
    unfolding q4_def p4_def by (rule div_step) simp
  have b: "y div 100 = q100 + (if p100 then 1 else 0)"
    unfolding q100_def p100_def by (rule div_step) simp
  have c: "y div 400 = q400 + (if p400 then 1 else 0)"
    unfolding q400_def p400_def by (rule div_step) simp
  have d: "p400 \<Longrightarrow> p100"
    unfolding p400_def p100_def by (rule mod_0_coarser [of y 400]) simp_all
  have e: "p100 \<Longrightarrow> p4"
    unfolding p100_def p4_def by (rule mod_0_coarser [of y 100]) simp_all
  have l: "isleap y \<longleftrightarrow> p4 \<and> (\<not> p100 \<or> p400)"
    unfolding isleap_def p4_def p100_def p400_def ..
  have y1: "days_before_year (y + 1) = y * 365 + y div 4 - y div 100 + y div 400"
    unfolding days_before_year_def by (simp only: add_diff_cancel_right')
  have y0: "days_before_year y = (y - 1) * 365 + q4 - q100 + q400"
    unfolding days_before_year_def q4_def q100_def q400_def ..
  show ?thesis
    unfolding y1 y0 a b c l using d e by (cases p4; cases p100; cases p400) simp_all
qed

lemma days_before_year_mono: "y \<le> y' \<Longrightarrow> days_before_year y \<le> days_before_year y'"
proof (induction y' rule: int_ge_induct)
  case base
  show ?case by simp
next
  case (step i)
  have "days_before_year i \<le> days_before_year (i + 1)"
    unfolding days_before_year_Suc by simp
  with step show ?case by simp
qed

lemma days_before_month_values:
  "days_before_month y 1 = 0"
  "days_before_month y 2 = 31"
  "days_before_month y 3 = 59 + (if isleap y then 1 else 0)"
  "days_before_month y 4 = 90 + (if isleap y then 1 else 0)"
  "days_before_month y 5 = 120 + (if isleap y then 1 else 0)"
  "days_before_month y 6 = 151 + (if isleap y then 1 else 0)"
  "days_before_month y 7 = 181 + (if isleap y then 1 else 0)"
  "days_before_month y 8 = 212 + (if isleap y then 1 else 0)"
  "days_before_month y 9 = 243 + (if isleap y then 1 else 0)"
  "days_before_month y 10 = 273 + (if isleap y then 1 else 0)"
  "days_before_month y 11 = 304 + (if isleap y then 1 else 0)"
  "days_before_month y 12 = 334 + (if isleap y then 1 else 0)"
  by (simp_all add: days_before_month_def DAYS_BEFORE_MONTH_def)

lemma days_before_month_Suc:
  assumes "1 \<le> m" "m < 12"
  shows "days_before_month y (m + 1) = days_before_month y m + month_days y m"
proof -
  from assms have "m = 1 \<or> m = 2 \<or> m = 3 \<or> m = 4 \<or> m = 5 \<or> m = 6 \<or> m = 7 \<or> m = 8 \<or> m = 9 \<or> m = 10 \<or> m = 11"
    by arith
  then show ?thesis
    by (elim disjE) (simp_all add: days_before_month_values month_days_def)
qed

lemma days_before_month_mono:
  assumes "1 \<le> m" "m \<le> m'" "m' \<le> 12"
  shows "days_before_month y m \<le> days_before_month y m'"
  using assms(2,1,3)
proof (induction m' rule: int_ge_induct)
  case base
  show ?case by simp
next
  case (step i)
  have "0 \<le> month_days y i" by (simp add: month_days_def)
  with step show ?case using days_before_month_Suc [of i y] by simp
qed

lemma day_of_year_bounds:
  assumes "valid_date d"
  shows "1 \<le> days_before_month (year d) (month d) + day d"
    and "days_before_month (year d) (month d) + day d \<le> (if isleap (year d) then 366 else 365)"
proof -
  have m: "1 \<le> month d" "month d \<le> 12" and dd: "1 \<le> day d" "day d \<le> month_days (year d) (month d)"
    using assms by (simp_all add: valid_date_def)
  have "0 \<le> days_before_month (year d) (month d)"
    using days_before_month_mono [of 1 "month d" "year d"] m by (simp add: days_before_month_values)
  with dd show "1 \<le> days_before_month (year d) (month d) + day d" by simp
  show "days_before_month (year d) (month d) + day d \<le> (if isleap (year d) then 366 else 365)"
  proof (cases "month d = 12")
    case True
    then show ?thesis using dd by (simp add: days_before_month_values month_days_def)
  next
    case False
    then have lt: "month d < 12" using m by simp
    have "days_before_month (year d) (month d) + day d \<le> days_before_month (year d) (month d + 1)"
      using dd days_before_month_Suc [OF m(1) lt] by simp
    also have "\<dots> \<le> days_before_month (year d) 12"
      using m lt by (intro days_before_month_mono) simp_all
    finally show ?thesis by (simp add: days_before_month_values split: if_splits)
  qed
qed

lemma toordinal_strict_mono:
  assumes "valid_date a" "valid_date b" "date_lt a b"
  shows "toordinal a < toordinal b"
proof -
  consider (y) "year a < year b"
    | (m) "year a = year b" "month a < month b"
    | (d) "year a = year b" "month a = month b" "day a < day b"
    using assms(3) by (auto simp: date_lt_def)
  then show ?thesis
  proof cases
    case y
    have "toordinal a \<le> days_before_year (year a) + (if isleap (year a) then 366 else 365)"
      using day_of_year_bounds(2) [OF assms(1)] by (simp add: toordinal_def)
    also have "\<dots> = days_before_year (year a + 1)" by (simp add: days_before_year_Suc)
    also have "\<dots> \<le> days_before_year (year b)"
      using y by (intro days_before_year_mono) simp
    also have "\<dots> < toordinal b"
      using day_of_year_bounds(1) [OF assms(2)] by (simp add: toordinal_def)
    finally show ?thesis .
  next
    case m
    have ma: "1 \<le> month a" and mb: "month b \<le> 12"
      and da: "day a \<le> month_days (year a) (month a)" and db: "1 \<le> day b"
      using assms(1,2) by (simp_all add: valid_date_def)
    have "days_before_month (year a) (month a) + day a \<le> days_before_month (year a) (month a + 1)"
      using da days_before_month_Suc [of "month a" "year a"] ma m mb by simp
    also have "\<dots> \<le> days_before_month (year a) (month b)"
      using ma m mb by (intro days_before_month_mono) simp_all
    finally show ?thesis using db m by (simp add: toordinal_def)
  next
    case d
    then show ?thesis by (simp add: toordinal_def)
  qed
qed

lemma thirty360_nonpositive:
  assumes "valid_date s" "valid_date e" "date_lt e s"
  shows "(year e - year s) * 360 + (month e - month s) * 30 + (min (day e) 30 - min (day s) 30) \<le> 0"
proof -
  have b: "1 \<le> month s" "month s \<le> 12" "1 \<le> month e" "month e \<le> 12"
     "1 \<le> day s" "day s \<le> 31" "1 \<le> day e" "day e \<le> 31"
    using assms(1,2) by (auto simp: valid_date_def month_days_def split: if_splits)
  consider (y) "year e < year s"
    | (m) "year e = year s" "month e < month s"
    | (d) "year e = year s" "month e = month s" "day e < day s"
    using assms(3) by (auto simp: date_lt_def)
  then show ?thesis
  proof cases
    case y
    then have "(year e - year s) * 360 \<le> - 360" by simp
    with b show ?thesis by simp
  next
    case m
    then have "(month e - month s) * 30 \<le> - 30" by simp
    with b m show ?thesis by simp
  next
    case d
    with b show ?thesis by simp
  qed
qed

section \<open>The year-fraction functions never raise\<close>

lemma fraction_with_days:
  assumes "0 < d"
  shows "\<exists>f. bindE (dec_div (Dec n 0) (Dec d 0)) (\<lambda>q. Inr (q, n)) = Inr (f, n)
             \<and> sgn (coef f) = sgn n"
proof -
  have nz: "coef (Dec d 0) \<noteq> 0" using assms by simp
  obtain q where q: "dec_div (Dec n 0) (Dec d 0) = Inr q"
    using dec_div_total [OF nz] by blast
  have "sgn (coef q) = sgn n"
    using dec_div_sgn [OF nz q] assms by simp
  with q show ?thesis by (simp only: bindE_Inr) blast
qed

lemma sgn_neg_iff: "sgn (a::int) = sgn b \<Longrightarrow> (a < 0 \<longleftrightarrow> b < 0) \<and> (a \<le> 0 \<longleftrightarrow> b \<le> 0)"
  by (auto simp: sgn_if split: if_splits)

lemma year_fraction_actual_360_unfold:
  "year_fraction_actual_360 s e =
     bindE (dec_div (Dec (days_between s e) 0) (Dec 360 0)) (\<lambda>q. Inr (q, days_between s e))"
  unfolding year_fraction_actual_360_def Let_def ..

lemma year_fraction_actual_365_unfold:
  "year_fraction_actual_365 s e =
     bindE (dec_div (Dec (days_between s e) 0) (Dec 365 0)) (\<lambda>q. Inr (q, days_between s e))"
  unfolding year_fraction_actual_365_def Let_def ..

lemma year_fraction_actual_actual_unfold:
  "year_fraction_actual_actual s e =
     bindE (dec_div (Dec (days_between s e) 0) (Dec (if isleap (year s) then 366 else 365) 0))
       (\<lambda>q. Inr (q, days_between s e))"
  unfolding year_fraction_actual_actual_def Let_def ..

lemma days_between_negative:
  "valid_date s \<Longrightarrow> valid_date e \<Longrightarrow> date_lt e s \<Longrightarrow> days_between s e < 0"
  using toordinal_strict_mono [of e s] by (simp add: days_between_def)

text \<open>
  Claim C10, as amended. For every pair of dates each of the four year-fraction functions
  returns a pair of a fraction and a day count and raises nothing. When the end date
  precedes the start date, the three conventions that count actual days return a negative
  day count and a negative fraction; Thirty360 returns a day count and a fraction that are
  negative or zero.
\<close>

theorem year_fractions_total:
  "(\<exists>f n. year_fraction_30_360 s e = Inr (f, n)
       \<and> (valid_date s \<and> valid_date e \<and> date_lt e s \<longrightarrow> n \<le> 0 \<and> coef f \<le> 0))
   \<and> (\<exists>f n. year_fraction_actual_360 s e = Inr (f, n)
       \<and> (valid_date s \<and> valid_date e \<and> date_lt e s \<longrightarrow> n < 0 \<and> coef f < 0))
   \<and> (\<exists>f n. year_fraction_actual_365 s e = Inr (f, n)
       \<and> (valid_date s \<and> valid_date e \<and> date_lt e s \<longrightarrow> n < 0 \<and> coef f < 0))
   \<and> (\<exists>f n. year_fraction_actual_actual s e = Inr (f, n)
       \<and> (valid_date s \<and> valid_date e \<and> date_lt e s \<longrightarrow> n < 0 \<and> coef f < 0))"
proof (intro conjI)
  define n where
    "n = (year e - year s) * 360 + (month e - month s) * 30 + (min (day e) 30 - min (day s) 30)"
  obtain f where f: "bindE (dec_div (Dec n 0) (Dec 360 0)) (\<lambda>q. Inr (q, n)) = Inr (f, n)"
    and sf: "sgn (coef f) = sgn n"
    using fraction_with_days [of 360 n] by auto
  have "year_fraction_30_360 s e = Inr (f, n)"
    unfolding year_fraction_30_360_unfold n_def [symmetric] by (rule f)
  moreover have "n \<le> 0 \<and> coef f \<le> 0" if "valid_date s \<and> valid_date e \<and> date_lt e s"
    using thirty360_nonpositive [of s e] that sgn_neg_iff [OF sf] by (simp add: n_def)
  ultimately show "\<exists>f n. year_fraction_30_360 s e = Inr (f, n)
       \<and> (valid_date s \<and> valid_date e \<and> date_lt e s \<longrightarrow> n \<le> 0 \<and> coef f \<le> 0)"
    by blast
next
  obtain f where f: "year_fraction_actual_360 s e = Inr (f, days_between s e)"
    and sf: "sgn (coef f) = sgn (days_between s e)"
    unfolding year_fraction_actual_360_unfold
    using fraction_with_days [of 360 "days_between s e"] by auto
  have "days_between s e < 0 \<and> coef f < 0" if "valid_date s \<and> valid_date e \<and> date_lt e s"
    using days_between_negative [of s e] that sgn_neg_iff [OF sf] by simp
  with f show "\<exists>f n. year_fraction_actual_360 s e = Inr (f, n)
       \<and> (valid_date s \<and> valid_date e \<and> date_lt e s \<longrightarrow> n < 0 \<and> coef f < 0)"
    by blast
next
  obtain f where f: "year_fraction_actual_365 s e = Inr (f, days_between s e)"
    and sf: "sgn (coef f) = sgn (days_between s e)"
    unfolding year_fraction_actual_365_unfold
    using fraction_with_days [of 365 "days_between s e"] by auto
  have "days_between s e < 0 \<and> coef f < 0" if "valid_date s \<and> valid_date e \<and> date_lt e s"
    using days_between_negative [of s e] that sgn_neg_iff [OF sf] by simp
  with f show "\<exists>f n. year_fraction_actual_365 s e = Inr (f, n)
       \<and> (valid_date s \<and> valid_date e \<and> date_lt e s \<longrightarrow> n < 0 \<and> coef f < 0)"
    by blast
next
  have pos: "0 < (if isleap (year s) then 366 else (365::int))" by simp
  obtain f where f: "year_fraction_actual_actual s e = Inr (f, days_between s e)"
    and sf: "sgn (coef f) = sgn (days_between s e)"
    unfolding year_fraction_actual_actual_unfold
    using fraction_with_days [OF pos, of "days_between s e"] by blast
  have "days_between s e < 0 \<and> coef f < 0" if "valid_date s \<and> valid_date e \<and> date_lt e s"
    using days_between_negative [of s e] that sgn_neg_iff [OF sf] by simp
  with f show "\<exists>f n. year_fraction_actual_actual s e = Inr (f, n)
       \<and> (valid_date s \<and> valid_date e \<and> date_lt e s \<longrightarrow> n < 0 \<and> coef f < 0)"
    by blast
qed

text \<open>From 2024-02-15 back to 2024-01-15.\<close>

lemma reversed_dates_valid:
  "valid_date (Date 2024 2 15) \<and> valid_date (Date 2024 1 15)
     \<and> date_lt (Date 2024 1 15) (Date 2024 2 15)"
  by code_simp

theorem year_fractions_total_witness:
  "valid_date (Date 2024 2 15) \<and> valid_date (Date 2024 1 15)
   \<and> date_lt (Date 2024 1 15) (Date 2024 2 15)
   \<and> (\<exists>f n. year_fraction_30_360 (Date 2024 2 15) (Date 2024 1 15) = Inr (f, n)
         \<and> n \<le> 0 \<and> coef f \<le> 0)
   \<and> (\<exists>f n. year_fraction_actual_365 (Date 2024 2 15) (Date 2024 1 15) = Inr (f, n)
         \<and> n < 0 \<and> coef f < 0)"
  using year_fractions_total [of "Date 2024 2 15" "Date 2024 1 15"] reversed_dates_valid
  by blast

text \<open>
  Claim C10 as stated fails for Thirty360: from 2024-01-31 back to 2024-01-30 both days are
  cut to 30, and the day count and the fraction are zero, not negative.
\<close>

theorem thirty360_reversed_dates_zero:
  "valid_date (Date 2024 1 31) \<and> valid_date (Date 2024 1 30)
   \<and> date_lt (Date 2024 1 30) (Date 2024 1 31)
   \<and> year_fraction_30_360 (Date 2024 1 31) (Date 2024 1 30) = Inr (Dec 0 0, 0)"
  by code_simp

section \<open>The payment dates\<close>

text \<open>
  What the loop of \<open>_generate_payment_dates\<close> appends: as many dates as it has
  iterations, each the roll of the date before it.
\<close>

lemma generate_loop_steps:
  assumes "generate_loop f n d ds = Inr r"
  shows "\<exists>new. r = ds @ new \<and> length new = n
           \<and> (\<forall>i<n. roll_date f ((d # new) ! i) = Inr (new ! i))"
  using assms
proof (induction n arbitrary: d ds r)
  case 0
  then show ?case by simp
next
  case (Suc n)
  from Suc.prems obtain d' where d': "roll_date f d = Inr d'"
    and rest: "generate_loop f n d' (ds @ [d']) = Inr r"
    by (auto split: sum.splits)
  from Suc.IH [OF rest] obtain new where new: "r = (ds @ [d']) @ new" "length new = n"
    and steps: "\<forall>i<n. roll_date f ((d' # new) ! i) = Inr (new ! i)"
    by blast
  have "roll_date f ((d # d' # new) ! i) = Inr ((d' # new) ! i)" if "i < Suc n" for i
  proof (cases i)
    case 0
    then show ?thesis using d' by simp
  next
    case (Suc j)
    then show ?thesis using steps that by simp
  qed
  then show ?case using new by (intro exI [of _ "d' # new"]) simp
qed

lemma generate_payment_dates_steps:
  assumes "generate_payment_dates self = Inr dates"
  shows "length dates = Suc (nat (terms self))"
    and "dates ! 0 = start_date self"
    and "\<And>i. i < nat (terms self) \<Longrightarrow> roll_date (frequency self) (dates ! i) = Inr (dates ! Suc i)"
proof -
  from assms obtain new where new: "dates = [start_date self] @ new"
    and len: "length new = nat (terms self)"
    and steps: "\<forall>i<nat (terms self).
        roll_date (frequency self) ((start_date self # new) ! i) = Inr (new ! i)"
    unfolding generate_payment_dates_def by (blast dest: generate_loop_steps)
  show "length dates = Suc (nat (terms self))" using new len by simp
  show "dates ! 0 = start_date self" using new by simp
  show "roll_date (frequency self) (dates ! i) = Inr (dates ! Suc i)" if "i < nat (terms self)" for i
    using steps that new by simp
qed







section \<open>The schedule\<close>

lemma finance_round_zero: "finance_round (Dec 0 e) nd = Inr (Dec 0 (- int nd))"
  by (simp add: finance_round_def quantize_def)

lemma schedule_step_last:
  assumes "schedule_step self i prev pay balance = Inr (row, balance')" "i = terms self"
  shows "balance' = Dec 0 (- 2) \<and> Closing_Balance row = Dec 0 (- 2)"
  using assms unfolding schedule_step_def Let_def
  by (auto simp: finance_round_zero split: sum.splits prod.splits)

lemma schedule_step_row_number:
  assumes "schedule_step self i prev pay balance = Inr (row, balance')"
  shows "Payment_No row = i \<and> Payment_Date row = pay"
  using assms unfolding schedule_step_def Let_def
  by (auto split: sum.splits prod.splits)

lemma schedule_loop_rows:
  assumes "schedule_loop self i dates prev balance schedule = Inr rows"
  shows "\<exists>new. rows = schedule @ new \<and> length new = length dates
           \<and> (\<forall>k<length dates. Payment_No (new ! k) = i + int k)
           \<and> (\<forall>k<length dates. i + int k = terms self \<longrightarrow> Closing_Balance (new ! k) = Dec 0 (- 2))"
  using assms
proof (induction dates arbitrary: i prev balance schedule rows)
  case Nil
  then show ?case by simp
next
  case (Cons pay rest)
  from Cons.prems obtain row balance' where
    step: "schedule_step self i prev pay balance = Inr (row, balance')"
    and loop: "schedule_loop self (i + 1) rest pay balance' (schedule @ [row]) = Inr rows"
    by (auto split: sum.splits)
  from Cons.IH [OF loop] obtain new where new: "rows = (schedule @ [row]) @ new"
    "length new = length rest"
    and no: "\<forall>k<length rest. Payment_No (new ! k) = i + 1 + int k"
    and cl: "\<forall>k<length rest. i + 1 + int k = terms self \<longrightarrow> Closing_Balance (new ! k) = Dec 0 (- 2)"
    by blast
  have a: "Payment_No ((row # new) ! k) = i + int k" if "k < length (pay # rest)" for k
    using that no schedule_step_row_number [OF step] by (cases k) auto
  have b: "Closing_Balance ((row # new) ! k) = Dec 0 (- 2)"
    if "k < length (pay # rest)" "i + int k = terms self" for k
    using that cl schedule_step_last [OF step] by (cases k) auto
  from new a b show ?case by (intro exI [of _ "row # new"]) simp
qed

text \<open>What a constructor call that returns has done.\<close>

lemma init_inversion:
  assumes "EMI_Calculator_init p rate s y c f = Inr self"
  obtains r ppy g e where
    "dec_div rate (Dec 100 0) = Inr r"
    "periods_per_year_table f = Some ppy"
    "dcc_table c = Some g"
    "calculate_emi \<lparr>P = p, R = r, start_date = s, years = y, convention = c, frequency = f,
        periods_per_year = ppy, terms = y * ppy, dcc = g, emi = Dec 0 0\<rparr> = Inr e"
    "self = \<lparr>P = p, R = r, start_date = s, years = y, convention = c, frequency = f,
        periods_per_year = ppy, terms = y * ppy, dcc = g, emi = e\<rparr>"
  using assms unfolding EMI_Calculator_init_def Let_def
  by (auto simp: bindE_eq_Inr lookup_eq_Inr)

lemma init_terms_positive:
  assumes "EMI_Calculator_init p rate s y c f = Inr self"
  shows "1 \<le> terms self"
proof (rule ccontr)
  assume neg: "\<not> 1 \<le> terms self"
  from assms obtain r ppy g e where
    e: "calculate_emi \<lparr>P = p, R = r, start_date = s, years = y, convention = c, frequency = f,
        periods_per_year = ppy, terms = y * ppy, dcc = g, emi = Dec 0 0\<rparr> = Inr e"
    and self: "self = \<lparr>P = p, R = r, start_date = s, years = y, convention = c, frequency = f,
        periods_per_year = ppy, terms = y * ppy, dcc = g, emi = e\<rparr>"
    by (rule init_inversion)
  from neg self have "y * ppy \<le> 0" by simp
  then have "calculate_emi \<lparr>P = p, R = r, start_date = s, years = y, convention = c, frequency = f,
        periods_per_year = ppy, terms = y * ppy, dcc = g, emi = Dec 0 0\<rparr>
      = Inl (if coef p = 0 then InvalidOperation else DivisionByZero)"
    using calculate_emi_no_terms [of "\<lparr>P = p, R = r, start_date = s, years = y, convention = c, frequency = f,
        periods_per_year = ppy, terms = y * ppy, dcc = g, emi = Dec 0 0\<rparr>"] by simp
  with e show False by simp
qed

lemma get_schedule_rows:
  assumes "get_schedule self = Inr rows"
  shows "length rows = nat (terms self)"
    and "\<And>k. k < nat (terms self) \<Longrightarrow> Payment_No (rows ! k) = 1 + int k"
    and "1 \<le> terms self \<Longrightarrow> Closing_Balance (last rows) = Dec 0 (- 2)"
proof -
  from assms obtain dates where dates: "generate_payment_dates self = Inr dates"
    and loop: "schedule_loop self 1 (drop 1 dates) (start_date self) (P self) [] = Inr rows"
    unfolding get_schedule_def bindE_eq_Inr by blast
  have len: "length (drop 1 dates) = nat (terms self)"
    using generate_payment_dates_steps(1) [OF dates] by simp
  from schedule_loop_rows [OF loop] len
  have rows: "length rows = nat (terms self)"
    and no: "\<forall>k<nat (terms self). Payment_No (rows ! k) = 1 + int k"
    and cl: "\<forall>k<nat (terms self). 1 + int k = terms self \<longrightarrow> Closing_Balance (rows ! k) = Dec 0 (- 2)"
    by auto
  show "length rows = nat (terms self)" by (rule rows)
  show "Payment_No (rows ! k) = 1 + int k" if "k < nat (terms self)" for k
    using no that by blast
  show "Closing_Balance (last rows) = Dec 0 (- 2)" if "1 \<le> terms self"
  proof -
    from that rows have ne: "rows \<noteq> []" by auto
    have "Closing_Balance (rows ! (nat (terms self) - 1)) = Dec 0 (- 2)"
      using cl that by simp
    then show ?thesis using rows ne by (simp add: last_conv_nth)
  qed
qed

text \<open>
  Claim C1. When the constructor returns a calculator and \<open>get_schedule\<close> returns its
  schedule, the schedule has one row for each period, at least one, and the closing balance
  of its last row is the decimal \<open>0.00\<close>.
\<close>

theorem final_closing_balance_zero:
  assumes "EMI_Calculator_init p rate s y c f = Inr self" "get_schedule self = Inr rows"
  shows "rows \<noteq> [] \<and> length rows = nat (terms self) \<and> Closing_Balance (last rows) = Dec 0 (- 2)"
proof -
  have t: "1 \<le> terms self" using assms(1) by (rule init_terms_positive)
  have "length rows = nat (terms self)" using assms(2) by (rule get_schedule_rows(1))
  moreover from this t have "rows \<noteq> []" by auto
  moreover have "Closing_Balance (last rows) = Dec 0 (- 2)"
    using assms(2) t by (rule get_schedule_rows(3))
  ultimately show ?thesis by simp
qed

section \<open>The example loans, evaluated\<close>

text \<open>
  The constructor builds \<open>example_loan\<close> and \<open>half_cent_loan\<close> from their inputs, and
  \<open>get_schedule\<close> returns \<open>example_schedule\<close> and \<open>half_cent_schedule\<close> for them.
\<close>

lemma rate_12_percent: "dec_div (Dec 12 0) (Dec 100 0) = Inr (Dec 12 (- 2))"
  by code_simp

lemma example_loan_emi: "calculate_emi (example_loan\<lparr>emi := Dec 0 0\<rparr>) = Inr (Dec 54544 (- 2))"
  by code_simp

lemma example_loan_init:
  "EMI_Calculator_init (Dec 100000 (- 2)) (Dec 12 0) (Date 2024 1 15) 1 ''30/360'' ''S''
     = Inr example_loan"
  using example_loan_emi
  by (simp add: EMI_Calculator_init_def rate_12_percent lookup_def periods_per_year_table_def
        dcc_table_def example_loan_def)

lemma example_loan_schedule: "get_schedule example_loan = Inr example_schedule"
  by code_simp




text \<open>The example loan: two rows, the second closes at \<open>0.00\<close>.\<close>

theorem final_closing_balance_zero_witness:
  "EMI_Calculator_init (Dec 100000 (- 2)) (Dec 12 0) (Date 2024 1 15) 1 ''30/360'' ''S''
     = Inr example_loan
   \<and> get_schedule example_loan = Inr example_schedule
   \<and> example_schedule \<noteq> []
   \<and> length example_schedule = nat (terms example_loan)
   \<and> Closing_Balance (last example_schedule) = Dec 0 (- 2)"
  using final_closing_balance_zero [OF example_loan_init example_loan_schedule]
    example_loan_init example_loan_schedule
  by simp

section \<open>The installment solver\<close>

lemma emi_loop_accumulate:
  "emi_loop self rest prev F product
     = accumulate_spec (R self) (dcc self) (zip (prev # rest) rest) product F"
proof (induction rest arbitrary: prev F product)
  case Nil
  show ?case by simp
next
  case (Cons pay rest)
  show ?case
    by (simp add: Cons.IH Let_def split: sum.split prod.split)
qed

lemma generate_payment_dates_shape:
  assumes "generate_payment_dates self = Inr dates"
  shows "dates = start_date self # drop 1 dates"
proof -
  have "dates \<noteq> []" using generate_payment_dates_steps(1) [OF assms] by auto
  then show ?thesis
    using generate_payment_dates_steps(2) [OF assms] by (cases dates) simp_all
qed

lemma calculate_emi_refines:
  "calculate_emi self =
     bindE (generate_payment_dates self) (\<lambda>dates.
     bindE (accumulate_spec (R self) (dcc self) (zip dates (tl dates)) (Dec 1 0) (Dec 0 0)) (\<lambda>F.
     bindE (dec_div (P self) F) (\<lambda>q. finance_round q 2)))"
proof (cases "generate_payment_dates self")
  case (Inl e)
  then show ?thesis by (simp add: calculate_emi_def)
next
  case (Inr dates)
  have "zip dates (tl dates) = zip (start_date self # drop 1 dates) (drop 1 dates)"
    using generate_payment_dates_shape [OF Inr] by (metis list.sel(3))
  then show ?thesis
    by (simp add: calculate_emi_def Inr emi_loop_accumulate)
qed

section \<open>Rounding half to even\<close>

lemma round_half_even_nearest:
  assumes "0 \<le> m"
  shows "2 * \<bar>m - round_half_even m k * 10 ^ k\<bar> \<le> 10 ^ k"
    and "2 * \<bar>m - round_half_even m k * 10 ^ k\<bar> = 10 ^ k \<Longrightarrow> even (round_half_even m k)"
    and "0 \<le> round_half_even m k"
proof -
  define T :: int where "T = 10 ^ k"
  define q r where "q = m div T" and "r = m mod T"
  define n where "n = round_half_even m k"
  have T: "0 < T" by (simp add: T_def)
  have r: "0 \<le> r" "r < T" using T by (simp_all add: r_def)
  have m: "m = q * T + r" by (simp add: q_def r_def)
  have q: "0 \<le> q" using assms T by (simp add: q_def pos_imp_zdiv_nonneg_iff)
  have n: "n = (if T < 2 * r \<or> (2 * r = T \<and> odd q) then q + 1 else q)"
    by (simp add: n_def round_half_even_def Let_def T_def q_def r_def)
  have d: "m - n * T = (if T < 2 * r \<or> (2 * r = T \<and> odd q) then r - T else r)"
    unfolding n m by (simp add: algebra_simps)
  have "2 * \<bar>m - n * T\<bar> \<le> T"
    unfolding d using r by auto
  then show "2 * \<bar>m - round_half_even m k * 10 ^ k\<bar> \<le> 10 ^ k"
    by (simp add: n_def T_def)
  have "even n" if "2 * \<bar>m - n * T\<bar> = T"
    using that unfolding d using r by (auto simp: n split: if_splits)
  then show "even (round_half_even m k)" if "2 * \<bar>m - round_half_even m k * 10 ^ k\<bar> = 10 ^ k"
    using that by (simp add: n_def T_def)
  show "0 \<le> round_half_even m k"
    unfolding n_def [symmetric] n using q by simp
qed

lemma signed_round_half_even_nearest:
  fixes c :: int and k :: nat
  defines "n \<equiv> sgn c * round_half_even \<bar>c\<bar> k"
  shows "2 * \<bar>c - n * 10 ^ k\<bar> \<le> 10 ^ k"
    and "2 * \<bar>c - n * 10 ^ k\<bar> = 10 ^ k \<Longrightarrow> even n"
proof -
  define h where "h = round_half_even \<bar>c\<bar> k"
  have h: "2 * \<bar>\<bar>c\<bar> - h * 10 ^ k\<bar> \<le> 10 ^ k"
    and e: "2 * \<bar>\<bar>c\<bar> - h * 10 ^ k\<bar> = 10 ^ k \<Longrightarrow> even h"
    unfolding h_def by (rule round_half_even_nearest, simp)+
  have d: "\<bar>c - n * 10 ^ k\<bar> = \<bar>\<bar>c\<bar> - h * 10 ^ k\<bar>" if "c \<noteq> 0"
  proof (cases "0 < c")
    case True
    then show ?thesis by (simp add: n_def h_def)
  next
    case False
    with that have "c < 0" by simp
    then have "c - n * 10 ^ k = - (\<bar>c\<bar> - h * 10 ^ k)" by (simp add: n_def h_def)
    then show ?thesis by (simp only: abs_minus_cancel)
  qed
  show "2 * \<bar>c - n * 10 ^ k\<bar> \<le> 10 ^ k"
  proof (cases "c = 0")
    case True
    then show ?thesis by (simp add: n_def)
  next
    case False
    then show ?thesis using h d by simp
  qed
  show "even n" if "2 * \<bar>c - n * 10 ^ k\<bar> = 10 ^ k"
  proof (cases "c = 0")
    case True
    then show ?thesis by (simp add: n_def)
  next
    case False
    with that d have "even h" using e by simp
    then show ?thesis by (simp add: n_def h_def [symmetric])
  qed
qed

lemma rounds_half_even_ratio:
  fixes c n :: int
  assumes "2 * \<bar>c - n * 10 ^ k\<bar> \<le> 10 ^ k"
    and "2 * \<bar>c - n * 10 ^ k\<bar> = 10 ^ k \<Longrightarrow> even n"
  shows "rounds_half_even (of_int c / 10 ^ k) n"
proof -
  define D where "D = \<bar>c - n * 10 ^ k\<bar>"
  define T :: int where "T = 10 ^ k"
  have T: "0 < T" by (simp add: T_def)
  have x: "\<bar>of_int c / 10 ^ k - (of_int n :: rat)\<bar> = of_int D / of_int T"
  proof -
    have "of_int c / 10 ^ k - (of_int n :: rat) = of_int (c - n * 10 ^ k) / of_int T"
      by (simp add: T_def field_simps)
    then show ?thesis using T by (simp add: D_def abs_divide del: of_int_diff of_int_mult)
  qed
  have le: "2 * D \<le> T" using assms(1) by (simp add: D_def T_def)
  show ?thesis
  proof (cases "2 * D = T")
    case True
    then have "even n" using assms(2) by (simp add: D_def T_def)
    moreover have "(of_int D / of_int T :: rat) = 1 / 2"
    proof -
      have "D \<noteq> 0" using T True by auto
      moreover have "(of_int T :: rat) = 2 * of_int D"
        unfolding True [symmetric] by simp
      ultimately show ?thesis by simp
    qed
    ultimately show ?thesis by (simp add: rounds_half_even_def x)
  next
    case False
    with le have "2 * D < T" by simp
    then have "(of_int (2 * D) :: rat) < of_int T" by (simp only: of_int_less_iff)
    then have "(of_int D / of_int T :: rat) < 1 / 2"
      using T by (simp add: field_simps)
    then show ?thesis by (simp add: rounds_half_even_def x)
  qed
qed

lemma round_half_even_zero: "round_half_even 0 k = 0"
  by (simp add: round_half_even_def)

lemma val_Dec: "val (Dec c e) = of_int c * 10 powi e"
  by (simp add: val_def)

lemma val_zero: "coef d = 0 \<Longrightarrow> val d = 0"
  by (simp add: val_def)

lemma rounds_half_even_exact: "rounds_half_even (of_int n) n"
  by (simp add: rounds_half_even_def)

lemma rescale_expo: "expo (rescale d e) = e"
  by (simp add: rescale_def)

text \<open>
  \<open>_rescale\<close> with \<open>ROUND_HALF_EVEN\<close> rounds half to even: the coefficient of the result is
  the rounding of the value counted in units of \<open>10 ^ e\<close>.
\<close>

lemma rescale_rounds: "rounds_half_even (val d * 10 powi (- e)) (coef (rescale d e))"
proof (cases "e \<le> expo d")
  case True
  have "val d * 10 powi (- e) = of_int (coef d) * (10 powi expo d * 10 powi (- e))"
    by (simp add: val_def)
  also have "(10 :: rat) powi expo d * 10 powi (- e) = 10 powi (expo d - e)"
    by (simp add: power_int_diff power_int_minus divide_inverse)
  also have "\<dots> = 10 ^ nat (expo d - e)"
    using True by (simp add: power_int_nonneg_exp)
  finally have "val d * 10 powi (- e) = of_int (coef d * 10 ^ nat (expo d - e))"
    by simp
  then show ?thesis
    using True by (simp only: rescale_def if_True decimal.sel rounds_half_even_exact)
next
  case False
  define k where "k = nat (e - expo d)"
  have "val d * 10 powi (- e) = of_int (coef d) * (10 powi expo d * 10 powi (- e))"
    by (simp add: val_def)
  also have "(10 :: rat) powi expo d * 10 powi (- e) = 10 powi (expo d - e)"
    by (simp add: power_int_diff power_int_minus divide_inverse)
  also have "expo d - e = - int k" using False by (simp add: k_def)
  also have "(10 :: rat) powi (- int k) = 1 / 10 ^ k"
    by (simp add: power_int_minus divide_inverse)
  finally have v: "val d * 10 powi (- e) = of_int (coef d) / 10 ^ k" by simp
  have "rounds_half_even (of_int (coef d) / 10 ^ k) (sgn (coef d) * round_half_even \<bar>coef d\<bar> k)"
    by (rule rounds_half_even_ratio) (rule signed_round_half_even_nearest)+
  then show ?thesis
    using False by (simp add: rescale_def v k_def)
qed

lemma quantize_result:
  assumes "quantize d e = Inr r"
  shows "r = rescale d e" and "ndigits \<bar>coef r\<bar> \<le> prec"
proof -
  show "r = rescale d e"
  proof (cases "coef d = 0")
    case True
    then show ?thesis
      using assms by (auto simp: quantize_def rescale_def round_half_even_zero)
  next
    case False
    then show ?thesis
      using assms by (auto simp: quantize_def Let_def split: if_splits)
  qed
  show "ndigits \<bar>coef r\<bar> \<le> prec"
  proof (cases "coef d = 0")
    case True
    then have "r = Dec 0 e" using assms by (simp add: quantize_def)
    then show ?thesis by (simp add: ndigits_small prec_def)
  next
    case False
    then show ?thesis
      using assms by (auto simp: quantize_def Let_def split: if_splits)
  qed
qed

text \<open>
  What \<open>finance_round(x, 2)\<close> returns: a decimal with exponent \<open>-2\<close> whose coefficient is the
  value of \<open>x\<close> in cents, rounded half to even, and has at most 28 digits.
\<close>

lemma finance_round_result:
  assumes "finance_round x 2 = Inr r"
  shows "expo r = - 2"
    and "rounds_half_even (val x * 100) (coef r)"
    and "\<bar>coef r\<bar> < 10 ^ 28"
proof -
  have q: "quantize x (- 2) = Inr r" using assms by (simp add: finance_round_def)
  have r: "r = rescale x (- 2)" using q by (rule quantize_result)
  show "expo r = - 2" by (simp add: r rescale_expo)
  have "rounds_half_even (val x * 10 powi (- (- 2))) (coef (rescale x (- 2)))"
    by (rule rescale_rounds)
  then show "rounds_half_even (val x * 100) (coef r)" by (simp add: r)
  have "ndigits \<bar>coef r\<bar> \<le> prec" using q by (rule quantize_result)
  then show "\<bar>coef r\<bar> < 10 ^ 28"
    using ndigits_le_iff [of "\<bar>coef r\<bar>" prec] by (simp add: prec_def)
qed

lemma int_within_half: "2 * \<bar>(m::int) - n\<bar> < 1 \<Longrightarrow> n = m"
  by arith

lemma rounds_half_even_integer:
  assumes "rounds_half_even (of_int m) n"
  shows "n = m"
proof -
  have "\<bar>(of_int m :: rat) - of_int n\<bar> = of_int \<bar>m - n\<bar>" by simp
  moreover have "(of_int \<bar>m - n\<bar> :: rat) \<noteq> 1 / 2"
  proof
    assume "(of_int \<bar>m - n\<bar> :: rat) = 1 / 2"
    then have "(of_int (2 * \<bar>m - n\<bar>) :: rat) = of_int 1" by simp
    then have "2 * \<bar>m - n\<bar> = 1" by (simp only: of_int_eq_iff)
    then show False by presburger
  qed
  ultimately have "(of_int \<bar>m - n\<bar> :: rat) < 1 / 2"
    using assms by (auto simp: rounds_half_even_def)
  then have "(of_int (2 * \<bar>m - n\<bar>) :: rat) < of_int 1" by simp
  then have "2 * \<bar>m - n\<bar> < 1" by (simp only: of_int_less_iff)
  then show ?thesis by (rule int_within_half)
qed

lemma rounds_half_even_within_half:
  "rounds_half_even x n \<Longrightarrow> \<bar>x - of_int n\<bar> \<le> 1 / 2"
  by (auto simp: rounds_half_even_def)

text \<open>
  Claim C3. When the constructor returns, the installment it has stored is the installment
  of the specification for the generated dates: with \<open>R = annualRatePercent / 100\<close>, \<open>F\<close>
  is accumulated over the consecutive date pairs in order from a product accumulator 1 and
  a sum 0, and the installment is \<open>principal / F\<close> rounded half to even to two digits: its
  exponent is \<open>-2\<close> and its coefficient is the half-even rounding of the quotient counted
  in cents. Every operation is the operation of the decimal type at the precision of 28
  significant digits that the program sets, which is what the specification names exact
  decimal arithmetic.
\<close>

theorem installment_solver_refines:
  assumes "EMI_Calculator_init p rate s y c f = Inr self"
  shows "\<exists>dates. generate_payment_dates self = Inr dates
           \<and> installment_spec p rate (dcc self) dates = Inr (emi self)
           \<and> (\<exists>F q. accumulate_spec (R self) (dcc self) (zip dates (tl dates)) (Dec 1 0) (Dec 0 0)
                        = Inr F
                  \<and> dec_div p F = Inr q
                  \<and> expo (emi self) = - 2
                  \<and> rounds_half_even (val q * 100) (coef (emi self)))"
proof -
  from assms obtain r ppy g e where
    r: "dec_div rate (Dec 100 0) = Inr r"
    and e: "calculate_emi \<lparr>P = p, R = r, start_date = s, years = y, convention = c, frequency = f,
        periods_per_year = ppy, terms = y * ppy, dcc = g, emi = Dec 0 0\<rparr> = Inr e"
    and self: "self = \<lparr>P = p, R = r, start_date = s, years = y, convention = c, frequency = f,
        periods_per_year = ppy, terms = y * ppy, dcc = g, emi = e\<rparr>"
    by (rule init_inversion)
  define self0 where "self0 = \<lparr>P = p, R = r, start_date = s, years = y, convention = c,
        frequency = f, periods_per_year = ppy, terms = y * ppy, dcc = g, emi = Dec 0 0\<rparr>"
  have same: "generate_payment_dates self = generate_payment_dates self0"
    by (simp add: generate_payment_dates_def self self0_def)
  from e obtain dates F q where
    dates: "generate_payment_dates self0 = Inr dates"
    and F: "accumulate_spec (R self0) (dcc self0) (zip dates (tl dates)) (Dec 1 0) (Dec 0 0) = Inr F"
    and q: "dec_div (P self0) F = Inr q"
    and fr: "finance_round q 2 = Inr e"
    unfolding self0_def [symmetric] calculate_emi_refines
    by (auto simp: bindE_eq_Inr)
  have fields: "R self0 = r" "dcc self0 = g" "P self0 = p" "R self = r" "dcc self = g" "emi self = e"
    by (simp_all add: self self0_def)
  have spec: "installment_spec p rate (dcc self) dates = Inr (emi self)"
    using r F q fr by (simp add: installment_spec_def fields)
  have "expo e = - 2" and "rounds_half_even (val q * 100) (coef e)"
    using fr by (rule finance_round_result)+
  with dates same spec F q show ?thesis
    by (auto simp: fields)
qed

text \<open>The example loan: the installment of the specification is 545.44.\<close>

theorem installment_solver_refines_witness:
  "EMI_Calculator_init (Dec 100000 (- 2)) (Dec 12 0) (Date 2024 1 15) 1 ''30/360'' ''S''
     = Inr example_loan
   \<and> (\<exists>dates. generate_payment_dates example_loan = Inr dates
         \<and> installment_spec (Dec 100000 (- 2)) (Dec 12 0) year_fraction_30_360 dates
              = Inr (Dec 54544 (- 2)))"
proof -
  have "dcc example_loan = year_fraction_30_360" "emi example_loan = Dec 54544 (- 2)"
    by (simp_all add: example_loan_def)
  then show ?thesis
    using installment_solver_refines [OF example_loan_init] example_loan_init by auto
qed

section \<open>Ordinals and dates: \<open>fromordinal\<close> inverts \<open>toordinal\<close>\<close>

text \<open>
  A year is one more than \<open>400 * a + 100 * b + 4 * c + d\<close> years, counted in cycles of 400,
  100, 4 and 1 years.
\<close>

lemma year_quotients:
  fixes a b c d :: int
  assumes "0 \<le> b" "b \<le> 3" "0 \<le> c" "c \<le> 24" "0 \<le> d" "d \<le> 3"
  defines "Y \<equiv> 400 * a + 100 * b + 4 * c + d"
  shows "Y div 4 = 100 * a + 25 * b + c"
    and "Y div 100 = 4 * a + b"
    and "Y div 400 = a"
proof -
  show "Y div 4 = 100 * a + 25 * b + c"
    by (rule int_div_pos_eq [where r = d]) (use assms in \<open>simp_all add: Y_def\<close>)
  show "Y div 100 = 4 * a + b"
    by (rule int_div_pos_eq [where r = "4 * c + d"]) (use assms in \<open>simp_all add: Y_def\<close>)
  show "Y div 400 = a"
    by (rule int_div_pos_eq [where r = "100 * b + 4 * c + d"]) (use assms in \<open>simp_all add: Y_def\<close>)
qed

lemma days_before_year_decomposed:
  fixes a b c d :: int
  assumes "0 \<le> b" "b \<le> 3" "0 \<le> c" "c \<le> 24" "0 \<le> d" "d \<le> 3"
  shows "days_before_year (400 * a + 100 * b + 4 * c + d + 1)
           = 146097 * a + 36524 * b + 1461 * c + 365 * d"
proof -
  define Y where "Y = 400 * a + 100 * b + 4 * c + d"
  note q = year_quotients [OF assms, of a, folded Y_def]
  have "days_before_year (Y + 1) = Y * 365 + Y div 4 - Y div 100 + Y div 400"
    by (simp add: days_before_year_def)
  also have "\<dots> = 146097 * a + 36524 * b + 1461 * c + 365 * d"
    unfolding q by (simp add: Y_def)
  finally show ?thesis by (simp only: Y_def)
qed

lemma isleap_decomposed:
  fixes a b c d :: int
  assumes "0 \<le> b" "b \<le> 3" "0 \<le> c" "c \<le> 24" "0 \<le> d" "d \<le> 3"
  shows "isleap (400 * a + 100 * b + 4 * c + d + 1) \<longleftrightarrow> d = 3 \<and> (c \<noteq> 24 \<or> b = 3)"
proof -
  define y where "y = 400 * a + 100 * b + 4 * c + d + 1"
  have m4: "y mod 4 = (if d = 3 then 0 else d + 1)"
  proof (cases "d = 3")
    case True
    have "y mod 4 = 0"
      by (rule int_mod_pos_eq [where q = "100 * a + 25 * b + c + 1"]) (simp_all add: y_def True)
    then show ?thesis using True by simp
  next
    case False
    have "y mod 4 = d + 1"
      by (rule int_mod_pos_eq [where q = "100 * a + 25 * b + c"])
        (use assms False in \<open>simp_all add: y_def\<close>)
    then show ?thesis using False by simp
  qed
  have m100: "y mod 100 = (if c = 24 then 0 else 4 * (c + 1))" if "d = 3"
  proof (cases "c = 24")
    case True
    have "y mod 100 = 0"
      by (rule int_mod_pos_eq [where q = "4 * a + b + 1"]) (simp_all add: y_def True that)
    then show ?thesis using True by simp
  next
    case False
    have "y mod 100 = 4 * (c + 1)"
      by (rule int_mod_pos_eq [where q = "4 * a + b"])
        (use assms False that in \<open>simp_all add: y_def\<close>)
    then show ?thesis using False by simp
  qed
  have m400: "y mod 400 = (if b = 3 then 0 else 100 * (b + 1))" if "d = 3" "c = 24"
  proof (cases "b = 3")
    case True
    have "y mod 400 = 0"
      by (rule int_mod_pos_eq [where q = "a + 1"]) (simp_all add: y_def True that)
    then show ?thesis using True by simp
  next
    case False
    have "y mod 400 = 100 * (b + 1)"
      by (rule int_mod_pos_eq [where q = a])
        (use assms False that in \<open>simp_all add: y_def\<close>)
    then show ?thesis using False by simp
  qed
  show ?thesis
  proof (cases "d = 3")
    case False
    then show ?thesis
      using assms m4 unfolding isleap_def y_def [symmetric] by simp
  next
    case d: True
    show ?thesis
    proof (cases "c = 24")
      case False
      then show ?thesis
        using assms d m4 m100 [OF d] unfolding isleap_def y_def [symmetric] by simp
    next
      case c: True
      show ?thesis
        using assms d c m4 m100 [OF d] m400 [OF d c] unfolding isleap_def y_def [symmetric]
        by simp
    qed
  qed
qed

lemma days_in_month_table:
  assumes "1 \<le> k" "k \<le> 12"
  shows "DAYS_IN_MONTH ! nat k + (if k = 2 \<and> isleap y then 1 else 0) = month_days y k"
proof -
  from assms have "k = 1 \<or> k = 2 \<or> k = 3 \<or> k = 4 \<or> k = 5 \<or> k = 6 \<or> k = 7 \<or> k = 8 \<or> k = 9
      \<or> k = 10 \<or> k = 11 \<or> k = 12"
    by arith
  then show ?thesis
    by (elim disjE) (simp_all add: DAYS_IN_MONTH_def month_days_def)
qed

lemma div_mod_facts:
  fixes x k :: int
  assumes "0 < k"
  shows "x = k * (x div k) + x mod k" and "0 \<le> x mod k" and "x mod k < k"
  using assms by simp_all

text \<open>
  The ordinal is split as \<open>_ord2ymd\<close> splits it; in each of its branches the date that it
  returns has the ordinal it was given.
\<close>

lemma toordinal_fromordinal: "toordinal (fromordinal n0) = n0"
proof -
  define n where "n = n0 - 1"
  define a where "a = n div 146097"
  define r1 where "r1 = n mod 146097"
  define b where "b = r1 div 36524"
  define r2 where "r2 = r1 mod 36524"
  define c where "c = r2 div 1461"
  define r3 where "r3 = r2 mod 1461"
  define d where "d = r3 div 365"
  define r4 where "r4 = r3 mod 365"
  define y where "y = a * 400 + 1 + b * 100 + c * 4 + d"
  define leapyear where "leapyear \<longleftrightarrow> d = 3 \<and> (c \<noteq> 24 \<or> b = 3)"
  define m where "m = (r4 + 50) div 32"
  define preceding where
    "preceding = DAYS_BEFORE_MONTH ! nat m + (if 2 < m \<and> leapyear then 1 else 0)"
  have unfold: "fromordinal n0 =
      (if d = 4 \<or> b = 4 then Date (y - 1) 12 31
       else if r4 < preceding
         then Date y (m - 1)
                (r4 - (preceding - (DAYS_IN_MONTH ! nat (m - 1)
                                      + (if m - 1 = 2 \<and> leapyear then 1 else 0))) + 1)
         else Date y m (r4 - preceding + 1))"
    unfolding fromordinal_def Let_def preceding_def m_def leapyear_def y_def r4_def d_def r3_def
      c_def r2_def b_def r1_def a_def n_def ..
  have n: "n = 146097 * a + r1" "0 \<le> r1" "r1 < 146097"
    unfolding a_def r1_def by (rule div_mod_facts, simp)+
  have r1: "r1 = 36524 * b + r2" "0 \<le> r2" "r2 < 36524"
    unfolding b_def r2_def by (rule div_mod_facts, simp)+
  have r2: "r2 = 1461 * c + r3" "0 \<le> r3" "r3 < 1461"
    unfolding c_def r3_def by (rule div_mod_facts, simp)+
  have r3: "r3 = 365 * d + r4" "0 \<le> r4" "r4 < 365"
    unfolding d_def r4_def by (rule div_mod_facts, simp)+
  have mm: "r4 + 50 = 32 * m + (r4 + 50) mod 32" "0 \<le> (r4 + 50) mod 32" "(r4 + 50) mod 32 < 32"
    unfolding m_def by (rule div_mod_facts, simp)+
  have b: "0 \<le> b" "b \<le> 4" using n r1 by linarith+
  have c: "0 \<le> c" "c \<le> 24" using r1 r2 by linarith+
  have d: "0 \<le> d" "d \<le> 4" using r2 r3 by linarith+
  have m: "1 \<le> m" "m \<le> 12" using mm r3 by linarith+
  have n0: "n0 = 146097 * a + 36524 * b + 1461 * c + 365 * d + r4 + 1"
    using n r1 r2 r3 by (simp add: n_def)
  show ?thesis
  proof (cases "b = 4")
    case True
    with n r1 have "r2 = 0" by linarith
    with r2 c have "c = 0" "r3 = 0" by linarith+
    with r3 d have "d = 0" "r4 = 0" by linarith+
    have y: "y - 1 = 400 * a + 100 * 3 + 4 * 24 + 3 + 1"
      by (simp add: y_def True \<open>c = 0\<close> \<open>d = 0\<close>)
    have "days_before_year (y - 1) = 146097 * a + 36524 * 3 + 1461 * 24 + 365 * 3"
      unfolding y by (rule days_before_year_decomposed) simp_all
    moreover have "isleap (y - 1)"
      unfolding y by (subst isleap_decomposed) simp_all
    ultimately have "toordinal (Date (y - 1) 12 31) = 146097 * a + 146097"
      by (simp add: toordinal_def days_before_month_values)
    moreover have "fromordinal n0 = Date (y - 1) 12 31"
      using True by (simp only: unfold if_True simp_thms)
    moreover have "n0 = 146097 * a + 146097"
      unfolding n0 by (simp add: True \<open>c = 0\<close> \<open>d = 0\<close> \<open>r4 = 0\<close>)
    ultimately show ?thesis by (simp only:)
  next
    case False
    with b have b3: "b \<le> 3" by simp
    show ?thesis
    proof (cases "d = 4")
      case True
      with r2 r3 have "r4 = 0" "r3 = 1460" by linarith+
      with r1 r2 c have c23: "c \<le> 23" by linarith
      have y: "y - 1 = 400 * a + 100 * b + 4 * c + 3 + 1"
        by (simp add: y_def True)
      have "days_before_year (y - 1) = 146097 * a + 36524 * b + 1461 * c + 365 * 3"
        unfolding y by (rule days_before_year_decomposed) (use b b3 c in simp_all)
      moreover have "isleap (y - 1)"
        unfolding y by (subst isleap_decomposed) (use b b3 c c23 in simp_all)
      ultimately have "toordinal (Date (y - 1) 12 31)
          = 146097 * a + 36524 * b + 1461 * c + 1461"
        by (simp add: toordinal_def days_before_month_values)
      moreover have "fromordinal n0 = Date (y - 1) 12 31"
        using True by (simp only: unfold if_True simp_thms)
      moreover have "n0 = 146097 * a + 36524 * b + 1461 * c + 1461"
        unfolding n0 by (simp add: True \<open>r4 = 0\<close>)
      ultimately show ?thesis by (simp only:)
    next
      case d4: False
      with d have d3: "d \<le> 3" by simp
      have y: "y = 400 * a + 100 * b + 4 * c + d + 1"
        by (simp add: y_def)
      have dby: "days_before_year y = 146097 * a + 36524 * b + 1461 * c + 365 * d"
        unfolding y by (rule days_before_year_decomposed) (use b b3 c d d3 in simp_all)
      have leap: "isleap y \<longleftrightarrow> leapyear"
        unfolding y leapyear_def by (rule isleap_decomposed) (use b b3 c d d3 in simp_all)
      have pre: "preceding = days_before_month y m"
        by (simp add: preceding_def days_before_month_def leap)
      show ?thesis
      proof (cases "r4 < preceding")
        case True
        have "m \<noteq> 1"
        proof
          assume "m = 1"
          then have "preceding = 0" by (simp add: pre days_before_month_values)
          with True r3 show False by simp
        qed
        with m have m1: "1 \<le> m - 1" "m - 1 < 12" by simp_all
        have dim: "DAYS_IN_MONTH ! nat (m - 1) + (if m - 1 = 2 \<and> leapyear then 1 else 0)
            = month_days y (m - 1)"
          using days_in_month_table [of "m - 1" y] m1 by (simp add: leap)
        have "days_before_month y (m - 1 + 1) = days_before_month y (m - 1) + month_days y (m - 1)"
          using m1 by (rule days_before_month_Suc)
        then have suc: "preceding = days_before_month y (m - 1) + month_days y (m - 1)"
          by (simp add: pre)
        have "fromordinal n0 = Date y (m - 1) (r4 - (preceding - month_days y (m - 1)) + 1)"
          using True False d4 by (simp only: unfold dim if_True if_False simp_thms)
        moreover have "toordinal (Date y (m - 1) (r4 - (preceding - month_days y (m - 1)) + 1))
            = 146097 * a + 36524 * b + 1461 * c + 365 * d + r4 + 1"
          by (simp add: toordinal_def dby suc)
        ultimately show ?thesis by (simp only: n0 [symmetric])
      next
        case nlt: False
        have "fromordinal n0 = Date y m (r4 - preceding + 1)"
          using nlt False d4 by (simp only: unfold if_False simp_thms)
        moreover have "toordinal (Date y m (r4 - preceding + 1))
            = 146097 * a + 36524 * b + 1461 * c + 365 * d + r4 + 1"
          by (simp add: toordinal_def dby pre [symmetric])
        ultimately show ?thesis by (simp only: n0 [symmetric])
      qed
    qed
  qed
qed

section \<open>Weekly payment dates\<close>

lemma add_days_ordinal:
  assumes "add_days d k = Inr d'"
  shows "toordinal d' = toordinal d + k"
  using assms by (auto simp: add_days_def Let_def toordinal_fromordinal split: if_splits)

lemma add_days_returns:
  assumes "0 < toordinal d + k" "toordinal d + k \<le> 3652059"
  shows "add_days d k = Inr (fromordinal (toordinal d + k))"
  using assms by (simp add: add_days_def Let_def)

lemma roll_date_weekly: "roll_date ''W'' d = add_days d 7"
  by (simp add: roll_date_def add_weeks_def)

lemma toordinal_positive:
  assumes "valid_date d"
  shows "0 < toordinal d"
proof -
  have "1 \<le> year d" using assms by (simp add: valid_date_def)
  then have "days_before_year 1 \<le> days_before_year (year d)" by (rule days_before_year_mono)
  moreover have "days_before_year 1 = 0" by (simp add: days_before_year_def)
  ultimately show ?thesis
    using day_of_year_bounds(1) [OF assms] by (simp add: toordinal_def)
qed

lemma toordinal_max:
  assumes "valid_date d"
  shows "toordinal d \<le> 3652059"
proof -
  have y: "year d + 1 \<le> 10000" using assms by (simp add: valid_date_def)
  have "toordinal d \<le> days_before_year (year d) + (if isleap (year d) then 366 else 365)"
    using day_of_year_bounds(2) [OF assms] by (simp add: toordinal_def)
  also have "\<dots> = days_before_year (year d + 1)" by (simp add: days_before_year_Suc)
  also have "\<dots> \<le> days_before_year 10000" using y by (rule days_before_year_mono)
  also have "\<dots> = 3652059" by (simp add: days_before_year_def)
  finally show ?thesis .
qed

lemma year_below:
  assumes "days_before_year y < 3652059"
  shows "y \<le> 9999"
proof (rule ccontr)
  assume "\<not> y \<le> 9999"
  then have "10000 \<le> y" by simp
  then have "days_before_year 10000 \<le> days_before_year y" by (rule days_before_year_mono)
  moreover have "days_before_year 10000 = 3652059" by (simp add: days_before_year_def)
  ultimately show False using assms by simp
qed

text \<open>
  The estimate \<open>(n + 50) >> 5\<close> of the month of the day \<open>n\<close> of a year (counted from 0)
  is the month of that day or the month after it.
\<close>

lemma month_estimate:
  fixes r :: int
  assumes "0 \<le> r" "r < 365"
  defines "m \<equiv> (r + 50) div 32"
  shows "1 \<le> m" and "m \<le> 12"
    and "r < days_before_month y m + month_days y m"
    and "1 < m \<Longrightarrow> days_before_month y (m - 1) \<le> r"
proof -
  define q where "q = (r + 50) mod 32"
  have mm: "r + 50 = 32 * m + q" "0 \<le> q" "q < 32"
    unfolding m_def q_def by (rule div_mod_facts, simp)+
  show m: "1 \<le> m" "m \<le> 12" using mm assms(1,2) by linarith+
  then have cases: "m = 1 \<or> m = 2 \<or> m = 3 \<or> m = 4 \<or> m = 5 \<or> m = 6 \<or> m = 7 \<or> m = 8
      \<or> m = 9 \<or> m = 10 \<or> m = 11 \<or> m = 12"
    by arith
  have r: "32 * m - 50 \<le> r" "r \<le> 32 * m - 19" using mm by linarith+
  from cases r assms(2) show "r < days_before_month y m + month_days y m"
    by (elim disjE) (simp_all add: days_before_month_values month_days_def)
  show "days_before_month y (m - 1) \<le> r" if "1 < m"
    using cases r that
    by (elim disjE) (simp_all add: days_before_month_values)
qed

text \<open>For an ordinal of the range of dates, \<open>_ord2ymd\<close> returns a date of the calendar.\<close>

lemma fromordinal_valid:
  assumes "1 \<le> n0" "n0 \<le> 3652059"
  shows "valid_date (fromordinal n0)"
proof -
  define n where "n = n0 - 1"
  define a where "a = n div 146097"
  define r1 where "r1 = n mod 146097"
  define b where "b = r1 div 36524"
  define r2 where "r2 = r1 mod 36524"
  define c where "c = r2 div 1461"
  define r3 where "r3 = r2 mod 1461"
  define d where "d = r3 div 365"
  define r4 where "r4 = r3 mod 365"
  define y where "y = a * 400 + 1 + b * 100 + c * 4 + d"
  define leapyear where "leapyear \<longleftrightarrow> d = 3 \<and> (c \<noteq> 24 \<or> b = 3)"
  define m where "m = (r4 + 50) div 32"
  define preceding where
    "preceding = DAYS_BEFORE_MONTH ! nat m + (if 2 < m \<and> leapyear then 1 else 0)"
  have unfold: "fromordinal n0 =
      (if d = 4 \<or> b = 4 then Date (y - 1) 12 31
       else if r4 < preceding
         then Date y (m - 1)
                (r4 - (preceding - (DAYS_IN_MONTH ! nat (m - 1)
                                      + (if m - 1 = 2 \<and> leapyear then 1 else 0))) + 1)
         else Date y m (r4 - preceding + 1))"
    unfolding fromordinal_def Let_def preceding_def m_def leapyear_def y_def r4_def d_def r3_def
      c_def r2_def b_def r1_def a_def n_def ..
  have n: "n = 146097 * a + r1" "0 \<le> r1" "r1 < 146097"
    unfolding a_def r1_def by (rule div_mod_facts, simp)+
  have r1: "r1 = 36524 * b + r2" "0 \<le> r2" "r2 < 36524"
    unfolding b_def r2_def by (rule div_mod_facts, simp)+
  have r2: "r2 = 1461 * c + r3" "0 \<le> r3" "r3 < 1461"
    unfolding c_def r3_def by (rule div_mod_facts, simp)+
  have r3: "r3 = 365 * d + r4" "0 \<le> r4" "r4 < 365"
    unfolding d_def r4_def by (rule div_mod_facts, simp)+
  have n_pos: "0 \<le> n" using assms(1) by (simp add: n_def)
  have a: "0 \<le> a" using n n_pos by linarith
  have b: "0 \<le> b" "b \<le> 4" using n r1 by linarith+
  have c: "0 \<le> c" "c \<le> 24" using r1 r2 by linarith+
  have d: "0 \<le> d" "d \<le> 4" using r2 r3 by linarith+
  have n0: "n0 = 146097 * a + 36524 * b + 1461 * c + 365 * d + r4 + 1"
    using n r1 r2 r3 by (simp add: n_def)
  have last_day: "valid_date (Date (y - 1) 12 31)" if "1 \<le> y - 1" "days_before_year (y - 1) < 3652059"
    using that(1) year_below [OF that(2)] by (simp add: valid_date_def month_days_def)
  show ?thesis
  proof (cases "b = 4")
    case True
    with n r1 have "r2 = 0" by linarith
    with r2 c have "c = 0" "r3 = 0" by linarith+
    with r3 d have "d = 0" "r4 = 0" by linarith+
    have y: "y - 1 = 400 * a + 100 * 3 + 4 * 24 + 3 + 1"
      by (simp add: y_def True \<open>c = 0\<close> \<open>d = 0\<close>)
    have "days_before_year (y - 1) = 146097 * a + 36524 * 3 + 1461 * 24 + 365 * 3"
      unfolding y by (rule days_before_year_decomposed) simp_all
    moreover have "n0 = 146097 * a + 146097"
      unfolding n0 by (simp add: True \<open>c = 0\<close> \<open>d = 0\<close> \<open>r4 = 0\<close>)
    ultimately have "days_before_year (y - 1) < 3652059" using assms(2) by simp
    moreover have "1 \<le> y - 1" unfolding y using a by simp
    ultimately have "valid_date (Date (y - 1) 12 31)" by (intro last_day)
    moreover have "fromordinal n0 = Date (y - 1) 12 31"
      using True by (simp only: unfold if_True simp_thms)
    ultimately show ?thesis by (simp only:)
  next
    case False
    with b have b3: "b \<le> 3" by simp
    show ?thesis
    proof (cases "d = 4")
      case True
      with r2 r3 have "r4 = 0" "r3 = 1460" by linarith+
      have y: "y - 1 = 400 * a + 100 * b + 4 * c + 3 + 1"
        by (simp add: y_def True)
      have "days_before_year (y - 1) = 146097 * a + 36524 * b + 1461 * c + 365 * 3"
        unfolding y by (rule days_before_year_decomposed) (use b b3 c in simp_all)
      moreover have "n0 = 146097 * a + 36524 * b + 1461 * c + 1461"
        unfolding n0 by (simp add: True \<open>r4 = 0\<close>)
      ultimately have "days_before_year (y - 1) < 3652059" using assms(2) by simp
      moreover have "1 \<le> y - 1" unfolding y using a b c by simp
      ultimately have "valid_date (Date (y - 1) 12 31)" by (intro last_day)
      moreover have "fromordinal n0 = Date (y - 1) 12 31"
        using True by (simp only: unfold if_True simp_thms)
      ultimately show ?thesis by (simp only:)
    next
      case d4: False
      with d have d3: "d \<le> 3" by simp
      have y: "y = 400 * a + 100 * b + 4 * c + d + 1"
        by (simp add: y_def)
      have dby: "days_before_year y = 146097 * a + 36524 * b + 1461 * c + 365 * d"
        unfolding y by (rule days_before_year_decomposed) (use b b3 c d d3 in simp_all)
      have "days_before_year y < 3652059" unfolding dby using n0 r3 assms(2) by simp
      then have y_max: "y \<le> 9999" by (rule year_below)
      have y_min: "1 \<le> y" unfolding y using a b c d by simp
      have leap: "isleap y \<longleftrightarrow> leapyear"
        unfolding y leapyear_def by (rule isleap_decomposed) (use b b3 c d d3 in simp_all)
      have pre: "preceding = days_before_month y m"
        by (simp add: preceding_def days_before_month_def leap)
      have est: "1 \<le> m" "m \<le> 12" "r4 < days_before_month y m + month_days y m"
        "1 < m \<Longrightarrow> days_before_month y (m - 1) \<le> r4"
        unfolding m_def using r3(2,3) by (rule month_estimate)+
      show ?thesis
      proof (cases "r4 < preceding")
        case True
        have "m \<noteq> 1"
        proof
          assume "m = 1"
          then have "preceding = 0" by (simp add: pre days_before_month_values)
          with True r3 show False by simp
        qed
        with est(1,2) have m1: "1 \<le> m - 1" "m - 1 < 12" and m2: "1 < m" by simp_all
        have dim: "DAYS_IN_MONTH ! nat (m - 1) + (if m - 1 = 2 \<and> leapyear then 1 else 0)
            = month_days y (m - 1)"
          using days_in_month_table [of "m - 1" y] m1 by (simp add: leap)
        have "days_before_month y (m - 1 + 1) = days_before_month y (m - 1) + month_days y (m - 1)"
          using m1 by (rule days_before_month_Suc)
        then have suc: "preceding = days_before_month y (m - 1) + month_days y (m - 1)"
          by (simp add: pre)
        have low: "days_before_month y (m - 1) \<le> r4" using m2 by (rule est(4))
        have "fromordinal n0 = Date y (m - 1) (r4 - (preceding - month_days y (m - 1)) + 1)"
          using True False d4 by (simp only: unfold dim if_True if_False simp_thms)
        moreover have "valid_date (Date y (m - 1) (r4 - (preceding - month_days y (m - 1)) + 1))"
          using y_min y_max m1 low True unfolding suc by (simp add: valid_date_def)
        ultimately show ?thesis by (simp only:)
      next
        case nlt: False
        have "fromordinal n0 = Date y m (r4 - preceding + 1)"
          using nlt False d4 by (simp only: unfold if_False simp_thms)
        moreover have "valid_date (Date y m (r4 - preceding + 1))"
          using y_min y_max est(1,2,3) nlt unfolding pre by (simp add: valid_date_def)
        ultimately show ?thesis by (simp only:)
      qed
    qed
  qed
qed

lemma add_days_valid:
  assumes "add_days d k = Inr d'"
  shows "valid_date d'"
  using assms by (auto simp: add_days_def Let_def fromordinal_valid split: if_splits)

text \<open>Two dates of the calendar with the same ordinal are the same date.\<close>

lemma toordinal_injective:
  assumes "valid_date a" "valid_date b" "toordinal a = toordinal b"
  shows "a = b"
proof (rule ccontr)
  assume "a \<noteq> b"
  then have "date_lt a b \<or> date_lt b a"
    by (cases a; cases b) (auto simp: date_lt_def)
  then show False
    using toordinal_strict_mono [OF assms(1,2)] toordinal_strict_mono [OF assms(2,1)] assms(3)
    by auto
qed

lemma weekly_loop_returns:
  assumes "0 < toordinal d" "toordinal d + 7 * int n \<le> 3652059"
  shows "\<exists>r. generate_loop ''W'' n d ds = Inr r"
  using assms
proof (induction n arbitrary: d ds)
  case 0
  show ?case by simp
next
  case (Suc n)
  define d' where "d' = fromordinal (toordinal d + 7)"
  have roll: "roll_date ''W'' d = Inr d'"
    unfolding roll_date_weekly d'_def using Suc.prems by (intro add_days_returns) simp_all
  have "toordinal d' = toordinal d + 7" by (simp add: d'_def toordinal_fromordinal)
  then have "0 < toordinal d'" "toordinal d' + 7 * int n \<le> 3652059"
    using Suc.prems by simp_all
  then have "\<exists>r. generate_loop ''W'' n d' (ds @ [d']) = Inr r" by (rule Suc.IH)
  then show ?case by (simp add: roll)
qed

text \<open>
  Claim C8. With the frequency Weekly, from any start date, as long as the last date does
  not pass 9999-12-31 (\<open>date.max\<close>, ordinal 3652059), the generator returns the start
  date followed by exactly \<open>terms\<close> dates; every one of them is a date of the calendar,
  and each is exactly 7 calendar days after the date before it (a date of the calendar is
  determined by its ordinal); the end of a month plays no part.
\<close>

theorem weekly_dates_seven_days_apart:
  assumes "frequency self = ''W''"
    and "valid_date (start_date self)"
    and "toordinal (start_date self) + 7 * terms self \<le> 3652059"
  shows "\<exists>dates. generate_payment_dates self = Inr dates
           \<and> length dates = nat (terms self) + 1
           \<and> dates ! 0 = start_date self
           \<and> list_all valid_date dates
           \<and> (\<forall>i<nat (terms self). days_between (dates ! i) (dates ! Suc i) = 7)"
proof -
  have pos: "0 < toordinal (start_date self)"
    using assms(2) by (rule toordinal_positive)
  have "toordinal (start_date self) + 7 * int (nat (terms self)) \<le> 3652059"
    using assms(3) toordinal_max [OF assms(2)] by (cases "0 \<le> terms self") simp_all
  with pos obtain dates where dates: "generate_payment_dates self = Inr dates"
    unfolding generate_payment_dates_def assms(1) by (blast dest: weekly_loop_returns)
  note g = generate_payment_dates_steps [OF dates]
  have step: "add_days (dates ! i) 7 = Inr (dates ! Suc i)" if "i < nat (terms self)" for i
    using g(3) [OF that] by (simp add: assms(1) roll_date_weekly)
  have "days_between (dates ! i) (dates ! Suc i) = 7" if "i < nat (terms self)" for i
    using step [OF that] by (simp add: days_between_def add_days_ordinal)
  moreover have "valid_date (dates ! j)" if "j < length dates" for j
  proof (cases j)
    case 0
    then show ?thesis using g(2) assms(2) by simp
  next
    case (Suc i)
    with that g(1) have "i < nat (terms self)" by simp
    then have "add_days (dates ! i) 7 = Inr (dates ! Suc i)" by (rule step)
    then show ?thesis unfolding Suc by (rule add_days_valid)
  qed
  then have "list_all valid_date dates" by (simp add: list_all_length)
  ultimately show ?thesis using dates g(1,2) by simp
qed

text \<open>
  Weekly for one year from 2024-01-31, the last day of its month: 53 dates, 7 days apart,
  the first ones 2024-02-07, 2024-02-14, 2024-02-21, 2024-02-28 and 2024-03-06.
\<close>

lemma weekly_loan_facts:
  "frequency weekly_loan = ''W'' \<and> valid_date (start_date weekly_loan)
   \<and> toordinal (start_date weekly_loan) + 7 * terms weekly_loan \<le> 3652059
   \<and> is_month_end (start_date weekly_loan)
   \<and> terms weekly_loan = 52 \<and> start_date weekly_loan = Date 2024 1 31"
  by code_simp

lemma weekly_loan_first_dates:
  "map_sum id (take 6) (generate_payment_dates weekly_loan)
     = Inr [Date 2024 1 31, Date 2024 2 7, Date 2024 2 14, Date 2024 2 21, Date 2024 2 28,
            Date 2024 3 6]"
  by code_simp

theorem weekly_dates_seven_days_apart_witness:
  "frequency weekly_loan = ''W'' \<and> valid_date (start_date weekly_loan)
   \<and> toordinal (start_date weekly_loan) + 7 * terms weekly_loan \<le> 3652059
   \<and> is_month_end (start_date weekly_loan)
   \<and> (\<exists>dates. generate_payment_dates weekly_loan = Inr dates
         \<and> length dates = 53
         \<and> dates ! 0 = Date 2024 1 31
         \<and> list_all valid_date dates
         \<and> days_between (dates ! 0) (dates ! 1) = 7
         \<and> days_between (dates ! 51) (dates ! 52) = 7)"
proof -
  from weekly_loan_facts have f: "frequency weekly_loan = ''W''"
    and v: "valid_date (start_date weekly_loan)"
    and b: "toordinal (start_date weekly_loan) + 7 * terms weekly_loan \<le> 3652059"
    and t: "terms weekly_loan = 52" and s: "start_date weekly_loan = Date 2024 1 31"
    by blast+
  from weekly_dates_seven_days_apart [OF f v b] obtain dates where
    d: "generate_payment_dates weekly_loan = Inr dates" "length dates = 53"
      "dates ! 0 = Date 2024 1 31" "list_all valid_date dates"
    and all: "\<forall>i<52. days_between (dates ! i) (dates ! Suc i) = 7"
    by (auto simp: t s)
  have "(0::nat) < 52" and "(51::nat) < 52" by simp_all
  with all have "days_between (dates ! 0) (dates ! Suc 0) = 7"
    and "days_between (dates ! 51) (dates ! Suc 51) = 7"
    by blast+
  with d have "generate_payment_dates weekly_loan = Inr dates \<and> length dates = 53
         \<and> dates ! 0 = Date 2024 1 31
         \<and> list_all valid_date dates
         \<and> days_between (dates ! 0) (dates ! 1) = 7
         \<and> days_between (dates ! 51) (dates ! 52) = 7"
    by simp
  with weekly_loan_facts show ?thesis by blast
qed

section \<open>Exact additions and subtractions\<close>







section \<open>Rounding to cents, in units\<close>









section \<open>One period of the schedule, in units\<close>







section \<open>The schedule loop, in units\<close>




section \<open>Cents, units and values\<close>









section \<open>The accounts of a schedule\<close>





section \<open>The identities of a schedule row\<close>



lemma half_cent_loan_within_limits: "within_limits half_cent_loan half_cent_schedule"
  by (simp add: within_limits_def half_cent_loan_def half_cent_schedule_def val_Dec power_int_minus)














end
